theory Spec2Isabelle
  imports
    Main
    "HOL-Library.Sublist"
    "HOL-Library.Char_ord"
    "HOL-Library.List_Lexorder"
    "HOL-Library.Multiset"
begin

section \<open>Python string operations used by repoed.py\<close>

text \<open>
  Strings are lists of characters. The program runs on a POSIX system (it strips the
  prefix \<open>./\<close> from walked paths), so \<open>os.sep\<close> is the slash and
  \<open>os.path.normcase\<close> is the identity.
\<close>

definition os_sep :: string where
  "os_sep = ''/''"

definition startswith :: "string \<Rightarrow> string \<Rightarrow> bool" where
  "startswith s p = prefix p s"

definition endswith :: "string \<Rightarrow> string \<Rightarrow> bool" where
  "endswith s p = suffix p s"

definition rstrip_chars :: "string \<Rightarrow> string \<Rightarrow> string" where
  \<comment> \<open>\<open>s.rstrip(cs)\<close>: every trailing character that occurs in \<open>cs\<close> is removed.\<close>
  "rstrip_chars s cs = rev (dropWhile (\<lambda>c. c \<in> set cs) (rev s))"

definition basename :: "string \<Rightarrow> string" where
  \<comment> \<open>\<open>posixpath.basename\<close>: \<open>p[p.rfind('/') + 1:]\<close>.\<close>
  "basename p = rev (takeWhile (\<lambda>c. c \<noteq> CHR ''/'') (rev p))"

definition path_join :: "string \<Rightarrow> string \<Rightarrow> string" where
  \<comment> \<open>\<open>posixpath.join(a, b)\<close> with one component \<open>b\<close>.\<close>
  "path_join a b =
     (if startswith b ''/'' then b
      else if a = [] \<or> endswith a ''/'' then a @ b
      else a @ ''/'' @ b)"

definition find_from :: "char \<Rightarrow> nat \<Rightarrow> string \<Rightarrow> nat option" where
  \<comment> \<open>\<open>s.find(c, k)\<close>, with \<open>None\<close> for Python's \<open>-1\<close>.\<close>
  "find_from c k s =
     (let r = drop k s; n = length (takeWhile (\<lambda>d. d \<noteq> c) r)
      in if n < length r then Some (k + n) else None)"

section \<open>The library function fnmatch.fnmatch\<close>

text \<open>
  \<open>fnmatch.fnmatch(name, pat)\<close> of the Python standard library translates the pattern
  into a regular expression and asks for a match of the whole name. The model follows
  \<open>fnmatch.translate\<close> (CPython 3.9 and later) item by item and gives each item the
  meaning the regular expression has: a star is any run of characters (the expression is
  compiled with the flag that lets the dot match every character), a question mark is
  one character, a bracket expression is a character set, everything else is literal.
\<close>

datatype set_tok = SLit char | SDash

datatype glob_item = STAR | ANY | LIT char | SET bool "(char \<times> char) list" | NEVER

definition bracket_close :: "string \<Rightarrow> nat option" where
  \<comment> \<open>The search for the closing bracket: \<open>pat\<close> is the text after the opening one,
      the result is the index \<open>j\<close> of the closing one, \<open>None\<close> when \<open>j >= n\<close>.\<close>
  "bracket_close pat =
     (let j0 = (if 0 < length pat \<and> pat ! 0 = CHR ''!'' then 1 else 0);
          j1 = (if j0 < length pat \<and> pat ! j0 = CHR '']'' then j0 + 1 else j0);
          j = j1 + length (takeWhile (\<lambda>c. c \<noteq> CHR '']'') (drop j1 pat))
      in if length pat \<le> j then None else Some j)"

function split_chunks :: "string list \<Rightarrow> nat \<Rightarrow> string \<Rightarrow> string list" where
  "split_chunks chunks k s =
     (case find_from CHR ''-'' k s of
        None \<Rightarrow>
          (if s \<noteq> [] then chunks @ [s]
           else if chunks = [] then []
           else butlast chunks @ [last chunks @ ''-''])
      | Some k' \<Rightarrow> split_chunks (chunks @ [take k' s]) 2 (drop (Suc k') s))"
  by pat_completeness auto
termination
proof (relation "measure (\<lambda>(chunks, k, s). length s)")
  show "wf (measure (\<lambda>(chunks, k, s). length s))"
    by simp
next
  fix chunks :: "string list" and k :: nat and s :: string and k' :: nat
  assume "find_from CHR ''-'' k s = Some k'"
  then have "s \<noteq> []"
    by (auto simp: find_from_def Let_def split: if_splits)
  then show "((chunks @ [take k' s], 2, drop (Suc k') s), (chunks, k, s))
               \<in> measure (\<lambda>(chunks, k, s). length s)"
    by (cases s) auto
qed

fun remove_empty_ranges :: "string list \<Rightarrow> string list" where
  "remove_empty_ranges [] = []"
| "remove_empty_ranges [c] = [c]"
| "remove_empty_ranges (c # cs) =
     (case remove_empty_ranges cs of
        [] \<Rightarrow> [c]
      | d # ds \<Rightarrow>
          if c \<noteq> [] \<and> d \<noteq> [] \<and> hd d < last c then (butlast c @ tl d) # ds
          else c # d # ds)"

fun join_chunks :: "string list \<Rightarrow> set_tok list" where
  "join_chunks [] = []"
| "join_chunks [c] = map SLit c"
| "join_chunks (c # cs) = map SLit c @ SDash # join_chunks cs"

fun tok_char :: "set_tok \<Rightarrow> char" where
  "tok_char (SLit c) = c"
| "tok_char SDash = CHR ''-''"

fun set_ranges :: "set_tok list \<Rightarrow> (char \<times> char) list" where
  "set_ranges [] = []"
| "set_ranges (a # SDash # b # ts) = (tok_char a, tok_char b) # set_ranges ts"
| "set_ranges (a # ts) = (tok_char a, tok_char a) # set_ranges ts"

definition set_item :: "string \<Rightarrow> glob_item" where
  "set_item stuff =
     (let toks =
            (if CHR ''-'' \<notin> set stuff then map SLit stuff
             else join_chunks (remove_empty_ranges
                    (split_chunks []
                       (if 0 < length stuff \<and> stuff ! 0 = CHR ''!'' then 2 else 1) stuff)))
      in if toks = [] then NEVER
         else if toks = [SLit CHR ''!''] then ANY
         else if hd toks = SLit CHR ''!'' then SET True (set_ranges (tl toks))
         else SET False (set_ranges toks))"

function translate_from :: "glob_item list \<Rightarrow> string \<Rightarrow> glob_item list" where
  "translate_from res [] = res"
| "translate_from res (c # pat) =
     (if c = CHR ''*'' then
        translate_from (if res = [] \<or> last res \<noteq> STAR then res @ [STAR] else res) pat
      else if c = CHR ''?'' then translate_from (res @ [ANY]) pat
      else if c = CHR ''['' then
        (case bracket_close pat of
           None \<Rightarrow> translate_from (res @ [LIT CHR ''['']) pat
         | Some j \<Rightarrow> translate_from (res @ [set_item (take j pat)]) (drop (Suc j) pat))
      else translate_from (res @ [LIT c]) pat)"
  by pat_completeness auto
termination
  by (relation "measure (\<lambda>(res, pat). length pat)") auto

definition translate :: "string \<Rightarrow> glob_item list" where
  "translate pat = translate_from [] pat"

fun item_ok :: "glob_item \<Rightarrow> char \<Rightarrow> bool" where
  "item_ok ANY c = True"
| "item_ok (LIT d) c = (c = d)"
| "item_ok (SET neg rs) c = (neg \<noteq> list_ex (\<lambda>(lo, hi). lo \<le> c \<and> c \<le> hi) rs)"
| "item_ok NEVER c = False"
| "item_ok STAR c = False"

fun glob_match :: "glob_item list \<Rightarrow> string \<Rightarrow> bool" where
  "glob_match [] s = (s = [])"
| "glob_match (STAR # ts) [] = glob_match ts []"
| "glob_match (STAR # ts) (c # s) = (glob_match ts (c # s) \<or> glob_match (STAR # ts) s)"
| "glob_match (t # ts) [] = False"
| "glob_match (t # ts) (c # s) = (item_ok t c \<and> glob_match ts s)"

definition fnmatch :: "string \<Rightarrow> string \<Rightarrow> bool" where
  "fnmatch name pat = glob_match (translate pat) name"

section \<open>The ignore rules: is_ignored\<close>

text \<open>
  One round of the loop of \<open>is_ignored\<close>: the flag \<open>ignore\<close> before the round and the
  raw pattern give the flag after it. A \<open>continue\<close> ends the round with the flag as it
  is then.
\<close>

definition is_ignored_step :: "string \<Rightarrow> bool \<Rightarrow> string \<Rightarrow> bool" where
  "is_ignored_step file_path ignore pattern0 =
     (let negative = startswith pattern0 ''!'';
          pattern1 = (if negative then drop 1 pattern0 else pattern0);
          pattern = (if startswith pattern1 ''/'' then drop 1 pattern1 else pattern1)
      in if endswith pattern ''/'' then
           (let pat = rstrip_chars pattern ''/''
            in if file_path = pat \<or> startswith file_path (pat @ os_sep)
               then \<not> negative else ignore)
         else if \<not> list_ex (\<lambda>char. char \<in> set pattern) ''*?[''
                 \<and> (file_path = pattern \<or> startswith file_path (pattern @ os_sep))
         then \<not> negative
         else if fnmatch file_path pattern \<or> fnmatch (basename file_path) pattern
         then \<not> negative
         else ignore)"

definition is_ignored :: "string \<Rightarrow> string list \<Rightarrow> bool" where
  "is_ignored file_path ignore_patterns =
     foldl (is_ignored_step file_path) False ignore_patterns"


subsection \<open>Patterns and matching\<close>

text \<open>
  What the loop body computes from a raw pattern before it matches: the local variable
  \<open>negative\<close>, the local variable \<open>pattern\<close> after the two strips, and the test for
  wildcard characters. A pattern matches a path when the round assigns the flag, that is
  when the flag after the round does not depend on the flag before it.
\<close>


definition pattern_negative :: "string \<Rightarrow> bool" where
  "pattern_negative pattern0 = startswith pattern0 ''!''"

definition pattern_text :: "string \<Rightarrow> string" where
  "pattern_text pattern0 =
     (let pattern1 = (if startswith pattern0 ''!'' then drop 1 pattern0 else pattern0)
      in if startswith pattern1 ''/'' then drop 1 pattern1 else pattern1)"

definition has_wildcard :: "string \<Rightarrow> bool" where
  "has_wildcard pattern = list_ex (\<lambda>char. char \<in> set pattern) ''*?[''"

definition pattern_matches :: "string \<Rightarrow> string \<Rightarrow> bool" where
  "pattern_matches file_path pattern0 =
     (is_ignored_step file_path True pattern0 = is_ignored_step file_path False pattern0)"

section \<open>The file tree and the directory walk\<close>

text \<open>
  A directory as \<open>os.walk\<close> lists it: the names of its entries that are not
  directories, and its sub-directories with their names, both in the order of the
  listing (which the operating system chooses). A directory that cannot be listed, or
  that is a symbolic link, is walked as a directory without entries.
\<close>

datatype tree = Tree (tree_files: "string list") (tree_dirs: "(string \<times> tree) list")

fun remove_dir :: "string \<Rightarrow> (string \<times> tree) list \<Rightarrow> (string \<times> tree) list" where
  \<comment> \<open>\<open>dirs.remove(name)\<close>: the first entry of that name goes.\<close>
  "remove_dir name [] = []"
| "remove_dir name ((d, sub) # dirs) =
     (if d = name then dirs else (d, sub) # remove_dir name dirs)"

definition visit_file :: "string list \<Rightarrow> string set \<Rightarrow> string \<Rightarrow> string \<Rightarrow> string list" where
  \<comment> \<open>One round of the inner loop: the paths it appends to \<open>source_files\<close>.\<close>
  "visit_file ignore_patterns exclude_files root file =
     (let rel_path0 = path_join root file;
          rel_path = (if startswith rel_path0 ''./'' then drop 2 rel_path0 else rel_path0)
      in if rel_path \<in> exclude_files then []
         else if is_ignored rel_path ignore_patterns then []
         else [rel_path])"

function walk_gather :: "string list \<Rightarrow> string set \<Rightarrow> string \<Rightarrow> tree \<Rightarrow> string list" where
  "walk_gather ignore_patterns exclude_files root (Tree files dirs) =
     (let dirs' = (if ''.git'' \<in> set (map fst dirs) then remove_dir ''.git'' dirs else dirs)
      in concat (map (visit_file ignore_patterns exclude_files root) files)
         @ concat (map (\<lambda>(d, sub).
                     walk_gather ignore_patterns exclude_files (path_join root d) sub) dirs'))"
  by pat_completeness auto
termination
proof (relation "measure (\<lambda>(ignore_patterns, exclude_files, root, t). size t)")
  show "wf (measure (\<lambda>(ignore_patterns, exclude_files, root, t). size t))"
    by simp
next
  fix ignore_patterns :: "string list" and exclude_files :: "string set" and root :: string
    and files :: "string list" and dirs dirs' :: "(string \<times> tree) list"
    and z :: "string \<times> tree" and d :: string and sub :: tree
  assume dirs': "dirs' = (if ''.git'' \<in> set (map fst dirs) then remove_dir ''.git'' dirs else dirs)"
    and z: "z \<in> set dirs'" and zd: "(d, sub) = z"
  have sub: "set (remove_dir n ds) \<subseteq> set ds" for n and ds :: "(string \<times> tree) list"
    by (induction n ds rule: remove_dir.induct) auto
  have sz: "(a, b) \<in> set ds \<Longrightarrow> size b < Suc (size_list (size_prod (\<lambda>_. 0) size) ds)"
    for a and b :: tree and ds
    by (induction ds) auto
  from dirs' z zd sub [of "''.git''" dirs] have "(d, sub) \<in> set dirs"
    by (auto split: if_splits)
  from sz [OF this]
  show "((ignore_patterns, exclude_files, path_join root d, sub),
         (ignore_patterns, exclude_files, root, Tree files dirs))
          \<in> measure (\<lambda>(ignore_patterns, exclude_files, root, t). size t)"
    by simp
qed

definition gather_source_files :: "string list \<Rightarrow> string set \<Rightarrow> tree \<Rightarrow> string list" where
  \<comment> \<open>The third argument is the current directory, which the source reads from the
      file system with \<open>os.walk(".")\<close>.\<close>
  "gather_source_files ignore_patterns exclude_files cwd =
     walk_gather ignore_patterns exclude_files ''.'' cwd"

section \<open>Reading files, and the run\<close>

definition read_file_content :: "(string \<Rightarrow> string + string) \<Rightarrow> string \<Rightarrow> string" where
  \<comment> \<open>The first argument stands for \<open>open(file_path, "r")\<close> followed by \<open>f.read()\<close>:
      \<open>Inr\<close> the text read, \<open>Inl\<close> the message of the exception raised.\<close>
  "read_file_content read_text file_path =
     (case read_text file_path of
        Inr content \<Rightarrow> content
      | Inl e \<Rightarrow> ''Error reading file: '' @ e)"

text \<open>
  What a run of the program finds: the current directory, the lines of the file
  \<open>.gitignore\<close> (read when the file exists), the outcome of the call of
  \<open>git log -n 3 --pretty=%s\<close> (the lines of its stripped output, or \<open>None\<close> when git
  exits with an error and \<open>CalledProcessError\<close> is raised), and the content of every
  file or the error that reading it raises.
\<close>

record env =
  cwd :: tree
  gitignore_lines :: "string list"
  git_log :: "string list option"
  read_text :: "string \<Rightarrow> string + string"

definition path_exists :: "tree \<Rightarrow> string \<Rightarrow> bool" where
  \<comment> \<open>\<open>os.path.exists(name)\<close> for a name in the current directory.\<close>
  "path_exists t name = (name \<in> set (tree_files t) \<or> name \<in> set (map fst (tree_dirs t)))"

definition path_isdir :: "tree \<Rightarrow> string \<Rightarrow> bool" where
  \<comment> \<open>\<open>os.path.isdir(name)\<close> for a name in the current directory.\<close>
  "path_isdir t name = (name \<in> set (map fst (tree_dirs t)))"

definition open_for_writing :: "string \<Rightarrow> tree \<Rightarrow> tree" where
  \<comment> \<open>\<open>open(name, "w")\<close> creates the file in the current directory when it is not
      there; where the listing shows it is up to the operating system.\<close>
  "open_for_writing name t =
     (if name \<in> set (tree_files t) then t else Tree (tree_files t @ [name]) (tree_dirs t))"

definition isspace :: "char \<Rightarrow> bool" where
  \<comment> \<open>\<open>str.isspace\<close> on the code points below 256.\<close>
  "isspace c = ((of_char c :: nat) \<in> {9, 10, 11, 12, 13, 28, 29, 30, 31, 32, 133, 160})"

definition strip :: "string \<Rightarrow> string" where
  "strip s = rev (dropWhile isspace (rev (dropWhile isspace s)))"

definition read_gitignore :: "env \<Rightarrow> string list" where
  "read_gitignore e =
     (if path_exists (cwd e) ''.gitignore''
      then filter (\<lambda>line. line \<noteq> [] \<and> \<not> startswith line ''#'') (map strip (gitignore_lines e))
      else [])"

definition get_git_commits :: "env \<Rightarrow> string list" where
  "get_git_commits e = (case git_log e of Some commits \<Rightarrow> commits | None \<Rightarrow> [])"

definition nl :: string where
  "nl = [CHR 0x0A]"

definition main :: "env \<Rightarrow> string + string" where
  \<comment> \<open>\<open>Inl\<close>: the message printed before \<open>sys.exit(1)\<close>; \<open>Inr\<close>: the text written
      to \<open>repoed.md\<close> by a run that ends with the message that the file was created.\<close>
  "main e =
     (if \<not> path_isdir (cwd e) ''.git'' then
        Inl ''Error: .git directory not found in current directory.''
      else if \<not> path_exists (cwd e) ''.gitignore'' then
        Inl ''Error: .gitignore file not found in current directory.''
      else
        let output_filename = ''repoed.md'';
            ignore_patterns = read_gitignore e;
            commits = get_git_commits e;
            cwd1 = open_for_writing output_filename (cwd e);
            out1 = (if commits \<noteq> [] then
                      foldl (\<lambda>out commit. out @ ''- '' @ commit @ nl)
                        (''### Last Commits'' @ nl) commits
                    else (''### Last Commits'' @ nl) @ (''- Not committed yet'' @ nl));
            out2 = out1 @ nl;
            readme_path = ''README.md'';
            out3 = out2 @ (''### README.md'' @ nl);
            out4 = (if path_exists cwd1 readme_path \<and> \<not> is_ignored readme_path ignore_patterns
                    then out3 @ (nl @ ''```'' @ nl)
                           @ (read_file_content (read_text e) readme_path @ nl)
                           @ (''```'' @ nl)
                    else out3 @ (nl @ ''- Does not exist'' @ nl));
            out5 = out4 @ (''---'' @ nl @ nl);
            exclude_files = {readme_path, ''.gitignore'', output_filename};
            source_files = sort (gather_source_files ignore_patterns exclude_files cwd1);
            out6 = foldl (\<lambda>out file.
                            out @ (''### '' @ file @ nl) @ (nl @ ''```'' @ nl)
                              @ (read_file_content (read_text e) file @ nl)
                              @ (''```'' @ nl) @ (''---'' @ nl @ nl))
                     out5 source_files
        in Inr out6)"

section \<open>Notions the properties are stated with\<close>

definition main_source_files :: "env \<Rightarrow> string list" where
  \<comment> \<open>The value of the variable \<open>source_files\<close> of \<open>main\<close> when the loop over it starts.\<close>
  "main_source_files e =
     sort (gather_source_files (read_gitignore e) {''README.md'', ''.gitignore'', ''repoed.md''}
             (open_for_writing ''repoed.md'' (cwd e)))"

definition main_readme :: "env \<Rightarrow> string option" where
  \<comment> \<open>The text \<open>main\<close> shows for the README, \<open>None\<close> when it shows none.\<close>
  "main_readme e =
     (if path_exists (cwd e) ''README.md'' \<and> \<not> is_ignored ''README.md'' (read_gitignore e)
      then Some (read_file_content (read_text e) ''README.md'')
      else None)"

definition commits_section :: "string list \<Rightarrow> string" where
  "commits_section commits =
     ''### Last Commits'' @ nl
       @ (if commits = [] then ''- Not committed yet'' @ nl
          else concat (map (\<lambda>commit. ''- '' @ commit @ nl) commits))
       @ nl"

definition readme_section :: "string option \<Rightarrow> string" where
  \<comment> \<open>\<open>Some\<close> the text shown for a README that exists and is not ignored.\<close>
  "readme_section body =
     ''### README.md'' @ nl
       @ (case body of
            Some text \<Rightarrow> nl @ ''```'' @ nl @ text @ nl @ ''```'' @ nl
          | None \<Rightarrow> nl @ ''- Does not exist'' @ nl)
       @ ''---'' @ nl @ nl"

definition file_section :: "string \<Rightarrow> string \<Rightarrow> string" where
  "file_section file body =
     ''### '' @ file @ nl @ nl @ ''```'' @ nl @ body @ nl @ ''```'' @ nl @ ''---'' @ nl @ nl"

fun wf_tree :: "tree \<Rightarrow> bool" where
  \<comment> \<open>What every directory listing satisfies: a name is not empty and has no slash,
      and no two entries of a directory share a name.\<close>
  "wf_tree (Tree files dirs) =
     (distinct (files @ map fst dirs)
      \<and> list_all (\<lambda>name. name \<noteq> [] \<and> CHR ''/'' \<notin> set name) (files @ map fst dirs)
      \<and> list_all (\<lambda>entry. wf_tree (snd entry)) dirs)"

fun same_entries :: "tree \<Rightarrow> tree \<Rightarrow> bool" where
  \<comment> \<open>The same directory, listed in another order at any level.\<close>
  "same_entries (Tree files dirs) (Tree files' dirs') =
     (mset files = mset files'
      \<and> mset (map fst dirs) = mset (map fst dirs')
      \<and> list_all (\<lambda>entry. list_all (\<lambda>entry'.
            fst entry = fst entry' \<longrightarrow> same_entries (snd entry) (snd entry')) dirs') dirs)"

function path_components :: "string \<Rightarrow> string list" where
  \<comment> \<open>\<open>p.split("/")\<close>\<close>
  "path_components p =
     (case dropWhile (\<lambda>c. c \<noteq> CHR ''/'') p of
        [] \<Rightarrow> [p]
      | _ # rest \<Rightarrow> takeWhile (\<lambda>c. c \<noteq> CHR ''/'') p # path_components rest)"
  by pat_completeness auto
termination
proof (relation "measure length")
  show "wf (measure length)" by simp
next
  fix p :: string and x rest
  assume "dropWhile (\<lambda>c. c \<noteq> CHR ''/'') p = x # rest"
  then have "length (x # rest) \<le> length p"
    using length_dropWhile_le [of "\<lambda>c. c \<noteq> CHR ''/''" p] by simp
  then show "(rest, p) \<in> measure length" by simp
qed

function walk_components :: "tree \<Rightarrow> string list list" where
  \<comment> \<open>The files the walk reaches, each as the list of names from the current
      directory down to the file.\<close>
  "walk_components (Tree files dirs) =
     (let dirs' = (if ''.git'' \<in> set (map fst dirs) then remove_dir ''.git'' dirs else dirs)
      in map (\<lambda>file. [file]) files
         @ concat (map (\<lambda>(d, sub). map ((#) d) (walk_components sub)) dirs'))"
  by pat_completeness auto
termination
proof (relation "measure size")
  show "wf (measure size)"
    by simp
next
  fix files :: "string list" and dirs dirs' :: "(string \<times> tree) list"
    and z :: "string \<times> tree" and d :: string and sub :: tree
  assume dirs': "dirs' = (if ''.git'' \<in> set (map fst dirs) then remove_dir ''.git'' dirs else dirs)"
    and z: "z \<in> set dirs'" and zd: "(d, sub) = z"
  have sub: "set (remove_dir n ds) \<subseteq> set ds" for n and ds :: "(string \<times> tree) list"
    by (induction n ds rule: remove_dir.induct) auto
  have sz: "(a, b) \<in> set ds \<Longrightarrow> size b < Suc (size_list (size_prod (\<lambda>_. 0) size) ds)"
    for a and b :: tree and ds
    by (induction ds) auto
  from dirs' z zd sub [of "''.git''" dirs] have "(d, sub) \<in> set dirs"
    by (auto split: if_splits)
  from sz [OF this] show "(sub, Tree files dirs) \<in> measure size"
    by simp
qed

definition join_components :: "string list \<Rightarrow> string" where
  \<comment> \<open>The path with these segments: \<open>"/".join(cs)\<close>.\<close>
  "join_components cs =
     (case cs of [] \<Rightarrow> [] | c # rest \<Rightarrow> c @ concat (map ((#) CHR ''/'') rest))"

definition main_file_sections :: "env \<Rightarrow> string" where
  \<comment> \<open>What the last loop of \<open>main\<close> writes: one section for every entry of
      \<open>source_files\<close>, in the order of the list.\<close>
  "main_file_sections e =
     concat (map (\<lambda>file. file_section file (read_file_content (read_text e) file))
       (main_source_files e))"

subsection \<open>Example inputs\<close>

definition example_tree :: tree where
  "example_tree =
     Tree [''b.txt'', ''README.md'', ''x.log'', ''.gitignore'']
       [(''src'', Tree [''a.py'', ''README.md''] []), (''.git'', Tree [''HEAD''] [])]"

definition example_tree_reordered :: tree where
  "example_tree_reordered =
     Tree [''.gitignore'', ''x.log'', ''b.txt'', ''README.md'']
       [(''.git'', Tree [''HEAD''] []), (''src'', Tree [''README.md'', ''a.py''] [])]"

definition example_env :: env where
  "example_env =
     \<lparr>cwd = example_tree,
      gitignore_lines = [''# logs'' @ nl, ''*.log'' @ nl],
      git_log = Some [''fix bug''],
      read_text = (\<lambda>p. if p = ''b.txt'' then Inl ''[Errno 13] Permission denied''
                        else Inr ''X'')\<rparr>"

definition example_env_bare :: env where
  "example_env_bare =
     \<lparr>cwd = Tree [''.gitignore'', ''a.txt''] [(''.git'', Tree [] [])],
      gitignore_lines = [],
      git_log = None,
      read_text = (\<lambda>p. Inr ''X'')\<rparr>"

definition example_env_reordered :: env where
  \<comment> \<open>The run of \<open>example_env\<close> with the directory listed in another order.\<close>
  "example_env_reordered = example_env\<lparr>cwd := example_tree_reordered\<rparr>"

section \<open>Properties of fnmatch and of one round of is_ignored\<close>

lemma has_wildcard_iff:
  "has_wildcard p \<longleftrightarrow> CHR ''*'' \<in> set p \<or> CHR ''?'' \<in> set p \<or> CHR ''['' \<in> set p"
  by (simp add: has_wildcard_def)

lemma has_wildcard_strip_mark:
  assumes "c \<noteq> CHR ''*''" "c \<noteq> CHR ''?''" "c \<noteq> CHR ''[''"
  shows "has_wildcard (if startswith q [c] then drop 1 q else q) = has_wildcard q"
  using assms by (cases q) (auto simp: has_wildcard_iff startswith_def)

lemma has_wildcard_pattern_text: "has_wildcard (pattern_text p) = has_wildcard p"
proof -
  define p1 where "p1 = (if startswith p ''!'' then drop 1 p else p)"
  have "has_wildcard (pattern_text p) = has_wildcard (if startswith p1 ''/'' then drop 1 p1 else p1)"
    by (simp only: pattern_text_def p1_def Let_def)
  also have "\<dots> = has_wildcard p1"
    by (rule has_wildcard_strip_mark) simp_all
  also have "\<dots> = has_wildcard p"
    unfolding p1_def by (rule has_wildcard_strip_mark) simp_all
  finally show ?thesis .
qed

lemma is_ignored_step_unfold:
  "is_ignored_step file_path ignore pattern0 =
     (if endswith (pattern_text pattern0) ''/'' then
        (if file_path = rstrip_chars (pattern_text pattern0) ''/''
            \<or> startswith file_path (rstrip_chars (pattern_text pattern0) ''/'' @ os_sep)
         then \<not> pattern_negative pattern0 else ignore)
      else if \<not> has_wildcard (pattern_text pattern0)
              \<and> (file_path = pattern_text pattern0
                   \<or> startswith file_path (pattern_text pattern0 @ os_sep))
      then \<not> pattern_negative pattern0
      else if fnmatch file_path (pattern_text pattern0)
              \<or> fnmatch (basename file_path) (pattern_text pattern0)
      then \<not> pattern_negative pattern0
      else ignore)"
  unfolding is_ignored_step_def pattern_text_def pattern_negative_def has_wildcard_def Let_def
  by (rule refl)

lemma translate_from_literal:
  "\<not> has_wildcard u \<Longrightarrow> translate_from res (u @ rest) = translate_from (res @ map LIT u) rest"
proof (induction u arbitrary: res)
  case Nil
  then show ?case by simp
next
  case (Cons c u)
  from Cons.prems have c: "c \<noteq> CHR ''*''" "c \<noteq> CHR ''?''" "c \<noteq> CHR ''[''" and u: "\<not> has_wildcard u"
    by (auto simp: has_wildcard_iff)
  show ?case
    using c Cons.IH [OF u, of "res @ [LIT c]"] by simp
qed

lemma translate_literal: "\<not> has_wildcard u \<Longrightarrow> translate u = map LIT u"
  using translate_from_literal [of u "[]" "[]"] by (simp add: translate_def)

lemma glob_match_literal_prefix:
  "glob_match (map LIT u @ ts) s \<longleftrightarrow> (\<exists>r. s = u @ r \<and> glob_match ts r)"
proof (induction u arbitrary: s)
  case Nil
  then show ?case by simp
next
  case (Cons c u)
  show ?case
  proof (cases s)
    case Nil
    then show ?thesis by simp
  next
    case (Cons d s')
    then show ?thesis using Cons.IH [of s'] by auto
  qed
qed

lemma glob_match_literal: "glob_match (map LIT u) s \<longleftrightarrow> s = u"
  using glob_match_literal_prefix [of u "[]" s] by auto

lemma fnmatch_literal: "\<not> has_wildcard p \<Longrightarrow> fnmatch s p \<longleftrightarrow> s = p"
  by (simp add: fnmatch_def translate_literal glob_match_literal)

lemma glob_match_star:
  "glob_match (STAR # ts) s \<longleftrightarrow> (\<exists>a b. s = a @ b \<and> glob_match ts b)"
proof (induction s)
  case Nil
  then show ?case by simp
next
  case (Cons c s)
  show ?case
  proof
    assume "glob_match (STAR # ts) (c # s)"
    then consider "glob_match ts (c # s)" | "glob_match (STAR # ts) s" by auto
    then show "\<exists>a b. c # s = a @ b \<and> glob_match ts b"
    proof cases
      case 1
      then have "c # s = [] @ (c # s) \<and> glob_match ts (c # s)" by simp
      then show ?thesis by blast
    next
      case 2
      with Cons.IH obtain a b where "s = a @ b" "glob_match ts b" by blast
      then have "c # s = (c # a) @ b \<and> glob_match ts b" by simp
      then show ?thesis by blast
    qed
  next
    assume "\<exists>a b. c # s = a @ b \<and> glob_match ts b"
    then obtain a b where ab: "c # s = a @ b" "glob_match ts b" by blast
    show "glob_match (STAR # ts) (c # s)"
    proof (cases a)
      case Nil
      with ab have "glob_match ts (c # s)" by simp
      then show ?thesis by simp
    next
      case (Cons d a')
      with ab have "s = a' @ b" by simp
      with ab(2) Cons.IH have "glob_match (STAR # ts) s" by blast
      then show ?thesis by simp
    qed
  qed
qed

lemma translate_star:
  assumes "\<not> has_wildcard u" "\<not> has_wildcard v"
  shows "translate (u @ CHR ''*'' # v) = map LIT u @ STAR # map LIT v"
proof -
  have "translate (u @ CHR ''*'' # v) = translate_from (map LIT u) (CHR ''*'' # v)"
    using translate_from_literal [OF assms(1), of "[]" "CHR ''*'' # v"] by (simp add: translate_def)
  also have "\<dots> = translate_from (map LIT u @ [STAR]) v"
    by (cases u rule: rev_cases) auto
  also have "\<dots> = map LIT u @ STAR # map LIT v"
    using translate_from_literal [OF assms(2), of "map LIT u @ [STAR]" "[]"] by simp
  finally show ?thesis .
qed

lemma fnmatch_star:
  assumes "\<not> has_wildcard u" "\<not> has_wildcard v"
  shows "fnmatch s (u @ ''*'' @ v) \<longleftrightarrow> (\<exists>m. s = u @ m @ v)"
proof -
  have "fnmatch s (u @ ''*'' @ v) \<longleftrightarrow> glob_match (map LIT u @ STAR # map LIT v) s"
    using translate_star [OF assms] by (simp add: fnmatch_def)
  also have "\<dots> \<longleftrightarrow> (\<exists>r. s = u @ r \<and> (\<exists>a b. r = a @ b \<and> b = v))"
    by (simp only: glob_match_literal_prefix glob_match_star glob_match_literal)
  also have "\<dots> \<longleftrightarrow> (\<exists>m. s = u @ m @ v)"
    by blast
  finally show ?thesis .
qed

lemma is_ignored_snoc:
  "is_ignored path (ps @ [p]) = is_ignored_step path (is_ignored path ps) p"
  by (simp add: is_ignored_def)

lemma step_matches:
  "is_ignored_step path ign p = (if pattern_matches path p then \<not> pattern_negative p else ign)"
  unfolding pattern_matches_def is_ignored_step_unfold by auto

lemma is_ignored_last_match:
  "is_ignored path ps =
     (let ms = filter (pattern_matches path) ps
      in if ms = [] then False else \<not> pattern_negative (last ms))"
proof (induction ps rule: rev_induct)
  case Nil
  then show ?case by (simp add: is_ignored_def)
next
  case (snoc p ps)
  then show ?case
    by (simp add: is_ignored_snoc step_matches Let_def)
qed

section \<open>The ignore rules\<close>

text \<open>
  Claim C1. The patterns are evaluated in the order of the list and every matching
  pattern overwrites the flag with the negation of its negated mark: the flag starts
  false, a further pattern at the end of the list decides when it matches and leaves the
  flag alone when it does not, so the answer is that of the last matching pattern. With
  the patterns \<open>*.log\<close> and \<open>!keep.log\<close>, \<open>keep.log\<close> is not ignored and
  \<open>build.log\<close> is.
\<close>

theorem is_ignored_last_match_wins:
  "is_ignored path [] = False
   \<and> is_ignored path (ps @ [p]) =
       (if pattern_matches path p then \<not> pattern_negative p else is_ignored path ps)
   \<and> is_ignored path ps =
       (let ms = filter (pattern_matches path) ps
        in if ms = [] then False else \<not> pattern_negative (last ms))
   \<and> is_ignored ''keep.log'' [''*.log'', ''!keep.log''] = False
   \<and> is_ignored ''build.log'' [''*.log'', ''!keep.log''] = True"
proof -
  have "is_ignored path [] = False"
    by (simp add: is_ignored_def)
  moreover have "is_ignored path (ps @ [p]) =
      (if pattern_matches path p then \<not> pattern_negative p else is_ignored path ps)"
    by (simp only: is_ignored_snoc step_matches)
  moreover note is_ignored_last_match [of path ps]
  moreover have "is_ignored ''keep.log'' [''*.log'', ''!keep.log''] = False"
    by code_simp
  moreover have "is_ignored ''build.log'' [''*.log'', ''!keep.log''] = True"
    by code_simp
  ultimately show ?thesis by blast
qed

theorem is_ignored_last_match_wins_witness:
  "pattern_matches ''keep.log'' ''!keep.log''
   \<and> pattern_negative ''!keep.log''
   \<and> is_ignored ''keep.log'' [''*.log''] = True
   \<and> is_ignored ''keep.log'' ([''*.log''] @ [''!keep.log'']) = False"
proof -
  have m: "pattern_matches ''keep.log'' ''!keep.log''" by code_simp
  have n: "pattern_negative ''!keep.log''" by code_simp
  have b: "is_ignored ''keep.log'' [''*.log''] = True" by code_simp
  from is_ignored_last_match_wins [of "''keep.log''" "[''*.log'']" "''!keep.log''"] m n
  have "is_ignored ''keep.log'' ([''*.log''] @ [''!keep.log'']) = False"
    by simp
  with m n b show ?thesis by blast
qed

text \<open>
  Claim C4. A pattern whose text ends with a slash after the negation mark and the
  root mark are stripped is a directory pattern. It matches a path exactly when the
  path is the text without its trailing slashes, or starts with that text followed by
  the separator; the round then sets the flag to the negation of the negated mark and
  otherwise leaves it. The pattern \<open>dist/\<close> ignores \<open>dist\<close> and \<open>dist/app.js\<close> and
  does not ignore \<open>mydist/app.js\<close>.
\<close>

theorem directory_pattern_matches:
  "(endswith (pattern_text p) ''/'' \<longrightarrow>
      (pattern_matches path p \<longleftrightarrow>
         path = rstrip_chars (pattern_text p) ''/''
         \<or> startswith path (rstrip_chars (pattern_text p) ''/'' @ os_sep))
      \<and> is_ignored_step path ign p =
          (if path = rstrip_chars (pattern_text p) ''/''
              \<or> startswith path (rstrip_chars (pattern_text p) ''/'' @ os_sep)
           then \<not> pattern_negative p else ign))
   \<and> is_ignored ''dist'' [''dist/'']
   \<and> is_ignored ''dist/app.js'' [''dist/'']
   \<and> \<not> is_ignored ''mydist/app.js'' [''dist/'']"
proof -
  have "pattern_matches path p \<longleftrightarrow>
          path = rstrip_chars (pattern_text p) ''/''
          \<or> startswith path (rstrip_chars (pattern_text p) ''/'' @ os_sep)"
    if "endswith (pattern_text p) ''/''"
    using that unfolding pattern_matches_def is_ignored_step_unfold by auto
  moreover have "is_ignored_step path ign p =
          (if path = rstrip_chars (pattern_text p) ''/''
              \<or> startswith path (rstrip_chars (pattern_text p) ''/'' @ os_sep)
           then \<not> pattern_negative p else ign)"
    if "endswith (pattern_text p) ''/''"
    using that unfolding is_ignored_step_unfold by simp
  moreover have "is_ignored ''dist'' [''dist/'']" by code_simp
  moreover have "is_ignored ''dist/app.js'' [''dist/'']" by code_simp
  moreover have "\<not> is_ignored ''mydist/app.js'' [''dist/'']" by code_simp
  ultimately show ?thesis by blast
qed

theorem directory_pattern_matches_witness:
  "endswith (pattern_text ''!/dist//'') ''/''
   \<and> rstrip_chars (pattern_text ''!/dist//'') ''/'' = ''dist''
   \<and> pattern_matches ''dist/app.js'' ''!/dist//''
   \<and> is_ignored_step ''dist/app.js'' True ''!/dist//'' = False"
proof -
  have h: "endswith (pattern_text ''!/dist//'') ''/''" by code_simp
  have t: "rstrip_chars (pattern_text ''!/dist//'') ''/'' = ''dist''" by code_simp
  have s: "startswith ''dist/app.js'' (''dist'' @ os_sep)" by code_simp
  have n: "pattern_negative ''!/dist//''" by code_simp
  from directory_pattern_matches [of "''!/dist//''" "''dist/app.js''" True] h
  have "pattern_matches ''dist/app.js'' ''!/dist//''
        \<and> is_ignored_step ''dist/app.js'' True ''!/dist//'' = False"
    using s n unfolding t by simp
  with h t show ?thesis by blast
qed

text \<open>
  Claim C2, as the program has it. A pattern without wildcard characters that is not a
  directory pattern matches a path exactly when the path is the pattern text, or starts
  with the pattern text followed by the separator, or has the pattern text as its final
  segment: a literal pattern that fails the first two tests still goes through the glob
  match on the path and on its final segment, which for such a pattern is equality. The
  pattern \<open>vendor\<close> ignores \<open>vendor\<close> and \<open>vendor/lib.go\<close> and does not ignore
  \<open>vendored.go\<close>.
\<close>

theorem literal_pattern_matches:
  "(\<not> endswith (pattern_text p) ''/'' \<and> \<not> has_wildcard (pattern_text p) \<longrightarrow>
      (pattern_matches path p \<longleftrightarrow>
         path = pattern_text p
         \<or> startswith path (pattern_text p @ os_sep)
         \<or> basename path = pattern_text p)
      \<and> is_ignored_step path ign p =
          (if path = pattern_text p
              \<or> startswith path (pattern_text p @ os_sep)
              \<or> basename path = pattern_text p
           then \<not> pattern_negative p else ign))
   \<and> has_wildcard (pattern_text p) = has_wildcard p
   \<and> is_ignored ''vendor'' [''vendor'']
   \<and> is_ignored ''vendor/lib.go'' [''vendor'']
   \<and> \<not> is_ignored ''vendored.go'' [''vendor'']"
proof -
  have "pattern_matches path p \<longleftrightarrow>
          path = pattern_text p
          \<or> startswith path (pattern_text p @ os_sep)
          \<or> basename path = pattern_text p"
    if "\<not> endswith (pattern_text p) ''/''" "\<not> has_wildcard (pattern_text p)"
    using that unfolding pattern_matches_def is_ignored_step_unfold
    by (auto simp: fnmatch_literal)
  moreover have "is_ignored_step path ign p =
          (if path = pattern_text p
              \<or> startswith path (pattern_text p @ os_sep)
              \<or> basename path = pattern_text p
           then \<not> pattern_negative p else ign)"
    if "\<not> endswith (pattern_text p) ''/''" "\<not> has_wildcard (pattern_text p)"
    using that unfolding is_ignored_step_unfold
    by (auto simp: fnmatch_literal)
  moreover note has_wildcard_pattern_text [of p]
  moreover have "is_ignored ''vendor'' [''vendor'']" by code_simp
  moreover have "is_ignored ''vendor/lib.go'' [''vendor'']" by code_simp
  moreover have "\<not> is_ignored ''vendored.go'' [''vendor'']" by code_simp
  ultimately show ?thesis by blast
qed

theorem literal_pattern_matches_witness:
  "\<not> endswith (pattern_text ''/vendor'') ''/'' \<and> \<not> has_wildcard (pattern_text ''/vendor'')
   \<and> pattern_matches ''vendor/lib.go'' ''/vendor''
   \<and> \<not> pattern_matches ''vendored.go'' ''/vendor''"
proof -
  have h: "\<not> endswith (pattern_text ''/vendor'') ''/''" "\<not> has_wildcard (pattern_text ''/vendor'')"
    by code_simp+
  have a: "startswith ''vendor/lib.go'' (pattern_text ''/vendor'' @ os_sep)" by code_simp
  have b: "\<not> (''vendored.go'' = pattern_text ''/vendor''
              \<or> startswith ''vendored.go'' (pattern_text ''/vendor'' @ os_sep)
              \<or> basename ''vendored.go'' = pattern_text ''/vendor'')" by code_simp
  from literal_pattern_matches [of "''/vendor''" "''vendor/lib.go''"] h a
  have 1: "pattern_matches ''vendor/lib.go'' ''/vendor''" by blast
  from literal_pattern_matches [of "''/vendor''" "''vendored.go''"] h b
  have 2: "\<not> pattern_matches ''vendored.go'' ''/vendor''" by blast
  from h 1 2 show ?thesis by blast
qed

text \<open>
  The claim as the specification words it fails: the literal pattern \<open>vendor\<close>
  matches the path \<open>src/vendor\<close>, which neither is the pattern text nor starts with
  it followed by the separator.
\<close>

theorem literal_pattern_counterexample:
  "\<not> endswith (pattern_text ''vendor'') ''/'' \<and> \<not> has_wildcard (pattern_text ''vendor'')
   \<and> pattern_matches ''src/vendor'' ''vendor''
   \<and> is_ignored ''src/vendor'' [''vendor'']
   \<and> \<not> (''src/vendor'' = pattern_text ''vendor''
          \<or> startswith ''src/vendor'' (pattern_text ''vendor'' @ os_sep))"
  by code_simp

text \<open>
  Claim C3. A pattern with a wildcard character that is not a directory pattern matches
  a path exactly when the glob match succeeds on the whole path or on the final segment
  of the path. In the glob match a star stands for any run of characters, the separator
  included: a name matches a literal text, a star and a literal text exactly when it
  starts with the first text and ends, after that, with the second. The pattern
  \<open>*.log\<close> matches the final segment of \<open>a/b/x.log\<close> and so ignores the path.
\<close>

theorem glob_pattern_matches:
  "(\<not> endswith (pattern_text p) ''/'' \<and> has_wildcard (pattern_text p) \<longrightarrow>
      (pattern_matches path p \<longleftrightarrow>
         fnmatch path (pattern_text p) \<or> fnmatch (basename path) (pattern_text p))
      \<and> is_ignored_step path ign p =
          (if fnmatch path (pattern_text p) \<or> fnmatch (basename path) (pattern_text p)
           then \<not> pattern_negative p else ign))
   \<and> has_wildcard (pattern_text p) = has_wildcard p
   \<and> (\<not> has_wildcard u \<and> \<not> has_wildcard v \<longrightarrow>
        (fnmatch s (u @ ''*'' @ v) \<longleftrightarrow> (\<exists>m. s = u @ m @ v)))
   \<and> basename ''a/b/x.log'' = ''x.log''
   \<and> fnmatch ''x.log'' ''*.log''
   \<and> fnmatch ''a/b/x.log'' ''*.log''
   \<and> is_ignored ''a/b/x.log'' [''*.log'']"
proof -
  have "pattern_matches path p \<longleftrightarrow>
          fnmatch path (pattern_text p) \<or> fnmatch (basename path) (pattern_text p)"
    if "\<not> endswith (pattern_text p) ''/''" "has_wildcard (pattern_text p)"
    using that unfolding pattern_matches_def is_ignored_step_unfold by auto
  moreover have "is_ignored_step path ign p =
          (if fnmatch path (pattern_text p) \<or> fnmatch (basename path) (pattern_text p)
           then \<not> pattern_negative p else ign)"
    if "\<not> endswith (pattern_text p) ''/''" "has_wildcard (pattern_text p)"
    using that unfolding is_ignored_step_unfold by simp
  moreover note has_wildcard_pattern_text [of p]
  moreover have "fnmatch s (u @ ''*'' @ v) \<longleftrightarrow> (\<exists>m. s = u @ m @ v)"
    if "\<not> has_wildcard u" "\<not> has_wildcard v"
    using that by (rule fnmatch_star)
  moreover have "basename ''a/b/x.log'' = ''x.log''" by code_simp
  moreover have "fnmatch ''x.log'' ''*.log''" by code_simp
  moreover have "fnmatch ''a/b/x.log'' ''*.log''" by code_simp
  moreover have "is_ignored ''a/b/x.log'' [''*.log'']" by code_simp
  ultimately show ?thesis by blast
qed

theorem glob_pattern_matches_witness:
  "\<not> endswith (pattern_text ''!*.log'') ''/'' \<and> has_wildcard (pattern_text ''!*.log'')
   \<and> \<not> has_wildcard [] \<and> \<not> has_wildcard ''.log''
   \<and> fnmatch ''a/b/x.log'' ([] @ ''*'' @ ''.log'')
   \<and> pattern_matches ''a/b/x.log'' ''!*.log''
   \<and> is_ignored_step ''a/b/x.log'' True ''!*.log'' = False"
proof -
  have h: "\<not> endswith (pattern_text ''!*.log'') ''/''" "has_wildcard (pattern_text ''!*.log'')"
    by code_simp+
  have w: "\<not> has_wildcard []" "\<not> has_wildcard ''.log''"
    by code_simp+
  have t: "pattern_text ''!*.log'' = [] @ ''*'' @ ''.log''" by code_simp
  have n: "pattern_negative ''!*.log''" by code_simp
  have "''a/b/x.log'' = [] @ ''a/b/x'' @ ''.log''" by simp
  then have e: "\<exists>m. ''a/b/x.log'' = [] @ m @ ''.log''" by blast
  from glob_pattern_matches [of "''!*.log''" "''a/b/x.log''" True "[]" "''.log''" "''a/b/x.log''"] w e
  have f: "fnmatch ''a/b/x.log'' ([] @ ''*'' @ ''.log'')" by blast
  from glob_pattern_matches [of "''!*.log''" "''a/b/x.log''" True "[]" "''.log''" "''a/b/x.log''"] h f n
  have "pattern_matches ''a/b/x.log'' ''!*.log''
        \<and> is_ignored_step ''a/b/x.log'' True ''!*.log'' = False"
    unfolding t by simp
  with h w f show ?thesis by blast
qed

section \<open>Properties of the walk and of the run\<close>

lemma is_ignored_Nil: "is_ignored path [] = False"
  by (simp add: is_ignored_def)

lemma visit_file_filter:
  "visit_file pats ex root file =
     filter (\<lambda>x. x \<notin> ex \<and> \<not> is_ignored x pats) (visit_file [] {} root file)"
  by (simp add: visit_file_def Let_def is_ignored_Nil)

lemma remove_dir_subset: "set (remove_dir name dirs) \<subseteq> set dirs"
  by (induction name dirs rule: remove_dir.induct) auto

lemma walk_gather_filter:
  "walk_gather pats ex root t =
     filter (\<lambda>x. x \<notin> ex \<and> \<not> is_ignored x pats) (walk_gather [] {} root t)"
proof (induction pats ex root t rule: walk_gather.induct)
  case (1 pats ex root files dirs)
  define dirs' where "dirs' = (if ''.git'' \<in> set (map fst dirs) then remove_dir ''.git'' dirs else dirs)"
  let ?P = "\<lambda>x. x \<notin> ex \<and> \<not> is_ignored x pats"
  have files: "concat (map (visit_file pats ex root) files)
      = filter ?P (concat (map (visit_file [] {} root) files))"
    by (induction files) (simp_all add: visit_file_filter [of pats ex])
  have sub: "walk_gather pats ex (path_join root d) sub
      = filter ?P (walk_gather [] {} (path_join root d) sub)" if "(d, sub) \<in> set dirs'" for d sub
    using "1.IH" [OF dirs'_def that refl] .
  have dirs: "concat (map (\<lambda>(d, sub). walk_gather pats ex (path_join root d) sub) ds)
      = filter ?P (concat (map (\<lambda>(d, sub). walk_gather [] {} (path_join root d) sub) ds))"
    if "set ds \<subseteq> set dirs'" for ds
    using that by (induction ds) (auto simp: sub)
  show ?case
    using files dirs [of dirs'] by (simp add: dirs'_def Let_def)
qed

lemma gather_source_files_filter:
  "gather_source_files pats ex t =
     filter (\<lambda>x. x \<notin> ex \<and> \<not> is_ignored x pats) (gather_source_files [] {} t)"
  unfolding gather_source_files_def by (rule walk_gather_filter)

lemma set_main_source_files:
  "set (main_source_files e) =
     {x \<in> set (gather_source_files [] {} (open_for_writing ''repoed.md'' (cwd e))).
        x \<notin> {''README.md'', ''.gitignore'', ''repoed.md''} \<and> \<not> is_ignored x (read_gitignore e)}"
  unfolding main_source_files_def
  by (subst gather_source_files_filter) auto

lemma foldl_append_sections:
  "foldl (\<lambda>out x. out @ f x) out xs = out @ concat (map f xs)"
  by (induction xs arbitrary: out) simp_all

lemma path_exists_open_for_writing:
  "name \<noteq> new \<Longrightarrow> path_exists (open_for_writing new t) name = path_exists t name"
  by (simp add: path_exists_def open_for_writing_def)

lemma main_document:
  assumes "path_isdir (cwd e) ''.git''" and "path_exists (cwd e) ''.gitignore''"
  shows "main e = Inr (commits_section (get_git_commits e) @ readme_section (main_readme e)
           @ concat (map (\<lambda>file. file_section file (read_file_content (read_text e) file))
               (main_source_files e)))"
proof -
  have ex: "path_exists (open_for_writing ''repoed.md'' (cwd e)) ''README.md''
            = path_exists (cwd e) ''README.md''"
    by (rule path_exists_open_for_writing) simp
  have commits: "foldl (\<lambda>out commit. out @ ''- '' @ commit @ nl) out cs
      = out @ concat (map (\<lambda>commit. ''- '' @ commit @ nl) cs)" for out cs
    by (induction cs arbitrary: out) simp_all
  have files: "foldl (\<lambda>out file.
                            out @ (''### '' @ file @ nl) @ (nl @ ''```'' @ nl)
                              @ (read_file_content (read_text e) file @ nl)
                              @ (''```'' @ nl) @ (''---'' @ nl @ nl)) out xs
      = out @ concat (map (\<lambda>file. file_section file (read_file_content (read_text e) file)) xs)"
    for out xs
    by (induction xs arbitrary: out) (simp_all add: file_section_def)
  show ?thesis
    unfolding main_def Let_def commits files ex
    using assms
    by (simp add: commits_section_def readme_section_def main_readme_def main_source_files_def)
qed

subsection \<open>The walk, file by file\<close>

lemma path_join_name:
  assumes "root \<noteq> []" "\<not> endswith root ''/''" "name \<noteq> []" "CHR ''/'' \<notin> set name"
  shows "path_join root name = root @ CHR ''/'' # name"
  using assms by (cases name) (auto simp: path_join_def startswith_def endswith_def)

lemma good_root_extend:
  assumes "name \<noteq> []" "CHR ''/'' \<notin> set name"
  shows "root @ CHR ''/'' # name \<noteq> [] \<and> \<not> endswith (root @ CHR ''/'' # name) ''/''"
proof -
  have "last (root @ CHR ''/'' # name) = last name"
    using assms(1) by simp
  moreover have "last name \<in> set name"
    using assms(1) by simp
  ultimately have l: "last (root @ CHR ''/'' # name) \<noteq> CHR ''/''"
    using assms(2) by metis
  have "\<not> endswith (root @ CHR ''/'' # name) ''/''"
  proof
    assume "endswith (root @ CHR ''/'' # name) ''/''"
    then obtain zs where "root @ CHR ''/'' # name = zs @ ''/''"
      by (auto simp: endswith_def suffix_def)
    then have "last (root @ CHR ''/'' # name) = CHR ''/''"
      by (simp only: last_snoc)
    with l show False by contradiction
  qed
  then show ?thesis by simp
qed

lemma remove_dir_distinct:
  "distinct (map fst dirs) \<Longrightarrow> set (remove_dir name dirs) = {p \<in> set dirs. fst p \<noteq> name}"
  by (induction name dirs rule: remove_dir.induct) (auto simp: rev_image_eqI)

lemma pruned_dirs:
  assumes "distinct (map fst dirs)"
  shows "set (if ''.git'' \<in> set (map fst dirs) then remove_dir ''.git'' dirs else dirs)
           = {p \<in> set dirs. fst p \<noteq> ''.git''}"
  using remove_dir_distinct [OF assms, of "''.git''"] by (auto simp: rev_image_eqI)

lemma wf_tree_sub:
  "wf_tree (Tree files dirs) \<Longrightarrow> (d, sub) \<in> set dirs \<Longrightarrow>
     wf_tree sub \<and> d \<noteq> [] \<and> CHR ''/'' \<notin> set d \<and> d \<notin> set files"
  by (auto simp: list_all_iff rev_image_eqI)

lemma wf_tree_file:
  "wf_tree (Tree files dirs) \<Longrightarrow> f \<in> set files \<Longrightarrow> f \<noteq> [] \<and> CHR ''/'' \<notin> set f"
  by (auto simp: list_all_iff)

lemma wf_tree_distinct:
  "wf_tree (Tree files dirs) \<Longrightarrow> distinct files \<and> distinct (map fst dirs)"
  by simp

lemma set_walk_components:
  assumes "distinct (map fst dirs)"
  shows "set (walk_components (Tree files dirs))
    = (\<lambda>f. [f]) ` set files
      \<union> (\<Union>p \<in> {p \<in> set dirs. fst p \<noteq> ''.git''}. (#) (fst p) ` set (walk_components (snd p)))"
  using pruned_dirs [OF assms]
  by (simp add: Let_def case_prod_beta)

lemma walk_components_names:
  "wf_tree t \<Longrightarrow> cs \<in> set (walk_components t) \<Longrightarrow>
     cs \<noteq> [] \<and> (\<forall>n \<in> set cs. n \<noteq> [] \<and> CHR ''/'' \<notin> set n)"
proof (induction t arbitrary: cs rule: walk_components.induct)
  case (1 files dirs)
  from "1.prems"(1) have dist: "distinct (map fst dirs)" by simp
  from "1.prems"(2) have "cs \<in> (\<lambda>f. [f]) ` set files
      \<union> (\<Union>p \<in> {p \<in> set dirs. fst p \<noteq> ''.git''}. (#) (fst p) ` set (walk_components (snd p)))"
    unfolding set_walk_components [OF dist] .
  then consider f where "f \<in> set files" "cs = [f]"
    | d sub cs' where "(d, sub) \<in> set dirs" "d \<noteq> ''.git''" "cs' \<in> set (walk_components sub)" "cs = d # cs'"
    by auto
  then show ?case
  proof cases
    case 1
    with wf_tree_file [OF "1.prems"(1)] show ?thesis by auto
  next
    case 2
    from wf_tree_sub [OF "1.prems"(1) 2(1)] have w: "wf_tree sub" "d \<noteq> []" "CHR ''/'' \<notin> set d"
      by auto
    from 2(1,2) pruned_dirs [OF dist]
    have "(d, sub) \<in> set (if ''.git'' \<in> set (map fst dirs) then remove_dir ''.git'' dirs else dirs)"
      by auto
    from "1.IH" [OF refl this refl w(1) 2(3)] w 2(4) show ?thesis by auto
  qed
qed

lemma walk_components_no_git:
  "wf_tree t \<Longrightarrow> cs \<in> set (walk_components t) \<Longrightarrow> ''.git'' \<notin> set (butlast cs)"
proof (induction t arbitrary: cs rule: walk_components.induct)
  case (1 files dirs)
  from "1.prems"(1) have dist: "distinct (map fst dirs)" by simp
  from "1.prems"(2) have "cs \<in> (\<lambda>f. [f]) ` set files
      \<union> (\<Union>p \<in> {p \<in> set dirs. fst p \<noteq> ''.git''}. (#) (fst p) ` set (walk_components (snd p)))"
    unfolding set_walk_components [OF dist] .
  then consider f where "f \<in> set files" "cs = [f]"
    | d sub cs' where "(d, sub) \<in> set dirs" "d \<noteq> ''.git''" "cs' \<in> set (walk_components sub)" "cs = d # cs'"
    by auto
  then show ?case
  proof cases
    case 1
    then show ?thesis by simp
  next
    case 2
    from wf_tree_sub [OF "1.prems"(1) 2(1)] have w: "wf_tree sub" by auto
    from 2(1,2) pruned_dirs [OF dist]
    have "(d, sub) \<in> set (if ''.git'' \<in> set (map fst dirs) then remove_dir ''.git'' dirs else dirs)"
      by auto
    from "1.IH" [OF refl this refl w 2(3)] have "''.git'' \<notin> set (butlast cs')" .
    moreover from walk_components_names [OF w 2(3)] have "cs' \<noteq> []" by simp
    ultimately show ?thesis using 2(2,4) by simp
  qed
qed

lemma path_components_join:
  assumes "cs \<noteq> []" "\<forall>n \<in> set cs. CHR ''/'' \<notin> set n"
  shows "path_components (join_components cs) = cs"
  using assms
proof (induction cs)
  case Nil
  then show ?case by simp
next
  case (Cons c cs)
  show ?case
  proof (cases cs)
    case Nil
    from Cons.prems have dw: "dropWhile (\<lambda>x. x \<noteq> CHR ''/'') c = []"
      by auto
    show ?thesis
      by (subst path_components.simps) (simp add: dw Nil join_components_def)
  next
    case (Cons d ds)
    from Cons.prems have c: "CHR ''/'' \<notin> set c" by simp
    have j: "join_components (c # cs) = c @ CHR ''/'' # join_components cs"
      using Cons by (simp add: join_components_def)
    from c have c': "\<forall>x \<in> set c. x \<noteq> CHR ''/''" by auto
    from c' have dw: "dropWhile (\<lambda>x. x \<noteq> CHR ''/'') (c @ CHR ''/'' # join_components cs)
                   = CHR ''/'' # join_components cs"
      by (simp add: dropWhile_append2)
    from c' have tw: "takeWhile (\<lambda>x. x \<noteq> CHR ''/'') (c @ CHR ''/'' # join_components cs) = c"
      by (simp add: takeWhile_tail)
    have "path_components (join_components cs) = cs"
      using Cons.IH Cons.prems Cons by simp
    then show ?thesis
      unfolding j by (subst path_components.simps) (simp add: dw tw)
  qed
qed

lemma walk_gather_components:
  "wf_tree t \<Longrightarrow> root \<noteq> [] \<Longrightarrow> \<not> endswith root ''/'' \<Longrightarrow>
     walk_gather pats ex root t =
       concat (map (\<lambda>cs. visit_file pats ex
                            (root @ concat (map ((#) CHR ''/'') (butlast cs))) (last cs))
                 (walk_components t))"
proof (induction pats ex root t rule: walk_gather.induct)
  case (1 pats ex root files dirs)
  define dirs' where "dirs' = (if ''.git'' \<in> set (map fst dirs) then remove_dir ''.git'' dirs else dirs)"
  let ?V = "\<lambda>r cs. visit_file pats ex (r @ concat (map ((#) CHR ''/'') (butlast cs))) (last cs)"
  have sub_dirs: "set dirs' \<subseteq> set dirs"
    using remove_dir_subset [of "''.git''" dirs] by (auto simp: dirs'_def)
  have files: "concat (map (visit_file pats ex root) files)
                 = concat (map (?V root) (map (\<lambda>file. [file]) files))"
    by (simp add: comp_def)
  have one: "walk_gather pats ex (path_join root d) sub
               = concat (map (?V root) (map ((#) d) (walk_components sub)))"
    if in_dirs: "(d, sub) \<in> set dirs'" for d sub
  proof -
    from in_dirs sub_dirs have "(d, sub) \<in> set dirs" by blast
    from wf_tree_sub [OF "1.prems"(1) this]
    have w: "wf_tree sub" and d: "d \<noteq> []" "CHR ''/'' \<notin> set d" by auto
    have pj: "path_join root d = root @ CHR ''/'' # d"
      using path_join_name [OF "1.prems"(2,3) d] .
    from good_root_extend [OF d, of root]
    have g: "path_join root d \<noteq> []" "\<not> endswith (path_join root d) ''/''"
      unfolding pj by auto
    have "walk_gather pats ex (path_join root d) sub
            = concat (map (?V (path_join root d)) (walk_components sub))"
      using "1.IH" [OF dirs'_def in_dirs refl w g] .
    also have "\<dots> = concat (map (?V root) (map ((#) d) (walk_components sub)))"
    proof -
      have "?V (path_join root d) cs = ?V root (d # cs)" if "cs \<in> set (walk_components sub)" for cs
      proof -
        from walk_components_names [OF w that] have "cs \<noteq> []" by simp
        then show ?thesis by (simp add: pj)
      qed
      then show ?thesis by (simp add: comp_def cong: map_cong)
    qed
    finally show ?thesis .
  qed
  have dirs: "concat (map (\<lambda>(d, sub). walk_gather pats ex (path_join root d) sub) ds)
      = concat (map (?V root) (concat (map (\<lambda>(d, sub). map ((#) d) (walk_components sub)) ds)))"
    if "set ds \<subseteq> set dirs'" for ds
    using that by (induction ds) (auto simp: one)
  have "walk_gather pats ex root (Tree files dirs)
      = concat (map (visit_file pats ex root) files)
        @ concat (map (\<lambda>(d, sub). walk_gather pats ex (path_join root d) sub) dirs')"
    by (simp add: dirs'_def Let_def)
  also have "\<dots> = concat (map (?V root) (map (\<lambda>file. [file]) files))
        @ concat (map (?V root) (concat (map (\<lambda>(d, sub). map ((#) d) (walk_components sub)) dirs')))"
    using files dirs [of dirs'] by simp
  also have "\<dots> = concat (map (?V root) (walk_components (Tree files dirs)))"
    by (simp add: dirs'_def Let_def)
  finally show ?case .
qed

lemma visit_file_root:
  assumes "cs \<noteq> []" "\<forall>n \<in> set cs. n \<noteq> [] \<and> CHR ''/'' \<notin> set n"
  shows "visit_file pats ex (''.'' @ concat (map ((#) CHR ''/'') (butlast cs))) (last cs)
           = filter (\<lambda>p. p \<notin> ex \<and> \<not> is_ignored p pats) [join_components cs]"
proof -
  let ?r = "''.'' @ concat (map ((#) CHR ''/'') (butlast cs))"
  from assms have l: "last cs \<noteq> []" "CHR ''/'' \<notin> set (last cs)"
    using last_in_set [OF assms(1)] by auto
  have g: "?r \<noteq> [] \<and> \<not> endswith ?r ''/''"
  proof (cases "butlast cs" rule: rev_cases)
    case Nil
    then show ?thesis by (simp add: endswith_def suffix_def)
  next
    case (snoc bs b)
    then have "b \<in> set cs" by (metis in_set_butlastD in_set_conv_decomp)
    with assms(2) have b: "b \<noteq> []" "CHR ''/'' \<notin> set b" by auto
    have "?r = (''.'' @ concat (map ((#) CHR ''/'') bs)) @ CHR ''/'' # b"
      using snoc by simp
    with good_root_extend [OF b, of "''.'' @ concat (map ((#) CHR ''/'') bs)"]
    show ?thesis by simp
  qed
  have pj: "path_join ?r (last cs) = ?r @ CHR ''/'' # last cs"
    using path_join_name [of ?r "last cs"] g l by blast
  have "?r @ CHR ''/'' # last cs = ''.'' @ concat (map ((#) CHR ''/'') (butlast cs @ [last cs]))"
    by simp
  also have "\<dots> = ''.'' @ concat (map ((#) CHR ''/'') cs)"
    using assms(1) by simp
  also have "\<dots> = ''./'' @ join_components cs"
    using assms(1) by (cases cs) (simp_all add: join_components_def)
  finally have full: "path_join ?r (last cs) = ''./'' @ join_components cs"
    using pj by simp
  show ?thesis
    unfolding visit_file_def full by (simp add: startswith_def Let_def)
qed

lemma gather_source_files_components:
  assumes "wf_tree t"
  shows "gather_source_files pats ex t =
           filter (\<lambda>p. p \<notin> ex \<and> \<not> is_ignored p pats) (map join_components (walk_components t))"
proof -
  have r: "''.'' \<noteq> []" "\<not> endswith ''.'' ''/''"
    by (simp_all add: endswith_def suffix_def)
  have "gather_source_files pats ex t
          = concat (map (\<lambda>cs. visit_file pats ex
                            (''.'' @ concat (map ((#) CHR ''/'') (butlast cs))) (last cs))
                 (walk_components t))"
    unfolding gather_source_files_def using walk_gather_components [OF assms r] .
  also have "\<dots> = concat (map (\<lambda>cs. filter (\<lambda>p. p \<notin> ex \<and> \<not> is_ignored p pats) [join_components cs])
                 (walk_components t))"
    using walk_components_names [OF assms] visit_file_root
    by (intro arg_cong [where f = concat] map_cong refl) blast
  also have "\<dots> = filter (\<lambda>p. p \<notin> ex \<and> \<not> is_ignored p pats) (map join_components (walk_components t))"
  proof -
    have "concat (map (\<lambda>cs. filter P [join_components cs]) xs) = filter P (map join_components xs)"
      for P and xs :: "string list list"
      by (induction xs) auto
    then show ?thesis .
  qed
  finally show ?thesis .
qed

lemma remove_dir_distinct_names:
  "distinct (map fst dirs) \<Longrightarrow> distinct (map fst (remove_dir name dirs))"
proof (induction name dirs rule: remove_dir.induct)
  case (1 name)
  then show ?case by simp
next
  case (2 name d sub dirs)
  have "d \<notin> fst ` set (remove_dir name dirs)"
    using "2.prems" remove_dir_subset [of name dirs] by auto
  with 2 show ?case by simp
qed

lemma dir_components_head:
  assumes "cs \<in> set (concat (map (\<lambda>(d, sub). map ((#) d) (walk_components sub)) ds))"
  shows "\<exists>d sub cs'. (d, sub) \<in> set ds \<and> cs' \<in> set (walk_components sub) \<and> cs = d # cs'"
proof -
  from assms obtain p where p: "p \<in> set ds"
    "cs \<in> set (case p of (d, sub) \<Rightarrow> map ((#) d) (walk_components sub))"
    by (auto simp only: set_concat set_map)
  obtain d sub where "p = (d, sub)" by (cases p)
  with p show ?thesis by auto
qed

lemma distinct_dir_components:
  assumes "distinct (map fst ds)"
    and "\<And>d sub. (d, sub) \<in> set ds \<Longrightarrow> distinct (walk_components sub)"
  shows "distinct (concat (map (\<lambda>(d, sub). map ((#) d) (walk_components sub)) ds))"
  using assms
proof (induction ds)
  case Nil
  then show ?case by simp
next
  case (Cons p ds)
  obtain d sub where p: "p = (d, sub)" by (cases p)
  let ?rest = "concat (map (\<lambda>(d, sub). map ((#) d) (walk_components sub)) ds)"
  have here: "distinct (map ((#) d) (walk_components sub))"
    using Cons.prems(2) [of d sub] p by (simp add: distinct_map)
  have rest: "distinct ?rest"
  proof (rule Cons.IH)
    show "distinct (map fst ds)"
      using Cons.prems(1) by simp
    show "distinct (walk_components sub)" if "(d, sub) \<in> set ds" for d sub
      using Cons.prems(2) [of d sub] that by simp
  qed
  have fresh: "d \<notin> fst ` set ds"
    using Cons.prems(1) p by simp
  have "cs \<notin> set ?rest" if "cs \<in> set (map ((#) d) (walk_components sub))" for cs
  proof
    assume "cs \<in> set ?rest"
    from dir_components_head [OF this] obtain d' sub' cs'
      where m: "(d', sub') \<in> set ds" "cs = d' # cs'" by blast
    from that obtain cs'' where "cs = d # cs''" by auto
    with m(2) have "d' = d" by simp
    with m(1) have "d \<in> fst ` set ds" by (simp add: rev_image_eqI)
    with fresh show False by contradiction
  qed
  then have "set (map ((#) d) (walk_components sub)) \<inter> set ?rest = {}"
    by blast
  with here rest have "distinct (map ((#) d) (walk_components sub) @ ?rest)"
    by (simp only: distinct_append simp_thms)
  then show ?case
    by (simp add: p)
qed

lemma distinct_walk_components:
  "wf_tree t \<Longrightarrow> distinct (walk_components t)"
proof (induction t rule: walk_components.induct)
  case (1 files dirs)
  define dirs' where "dirs' = (if ''.git'' \<in> set (map fst dirs) then remove_dir ''.git'' dirs else dirs)"
  let ?F = "map (\<lambda>file. [file]) files"
  let ?D = "concat (map (\<lambda>(d, sub). map ((#) d) (walk_components sub)) dirs')"
  from "1.prems" have dist: "distinct files" "distinct (map fst dirs)" by simp_all
  have sub_dirs: "set dirs' \<subseteq> set dirs"
    using remove_dir_subset [of "''.git''" dirs] by (auto simp: dirs'_def)
  have names': "distinct (map fst dirs')"
    using remove_dir_distinct_names [OF dist(2)] dist(2) by (simp add: dirs'_def)
  have subs: "distinct (walk_components sub)" if "(d, sub) \<in> set dirs'" for d sub
  proof -
    from that sub_dirs have "(d, sub) \<in> set dirs" by blast
    from wf_tree_sub [OF "1.prems" this] have "wf_tree sub" by simp
    from "1.IH" [OF dirs'_def that refl this] show ?thesis .
  qed
  have a: "distinct ?F"
    using dist(1) by (simp add: distinct_map inj_on_def)
  have b: "distinct ?D"
    using names' subs by (rule distinct_dir_components)
  have c: "2 \<le> length cs" if "cs \<in> set ?D" for cs
  proof -
    from dir_components_head [OF that] obtain d sub cs'
      where m: "(d, sub) \<in> set dirs'" "cs' \<in> set (walk_components sub)" "cs = d # cs'"
      by blast
    from m(1) sub_dirs have "(d, sub) \<in> set dirs" by blast
    from wf_tree_sub [OF "1.prems" this] have "wf_tree sub" by simp
    from walk_components_names [OF this m(2)] have "cs' \<noteq> []" by simp
    with m(3) show ?thesis by (cases cs') simp_all
  qed
  have "cs \<notin> set ?D" if "cs \<in> set ?F" for cs
  proof
    assume "cs \<in> set ?D"
    from c [OF this] have "2 \<le> length cs" .
    moreover from that have "length cs = 1" by auto
    ultimately show False by simp
  qed
  then have "set ?F \<inter> set ?D = {}"
    by blast
  with a b have "distinct (?F @ ?D)"
    by (simp only: distinct_append simp_thms)
  moreover have "walk_components (Tree files dirs) = ?F @ ?D"
    by (simp add: dirs'_def Let_def)
  ultimately show ?case
    by (simp only:)
qed

lemma join_components_inj:
  assumes "wf_tree t"
  shows "inj_on join_components (set (walk_components t))"
proof (rule inj_onI)
  fix cs cs'
  assume a: "cs \<in> set (walk_components t)" "cs' \<in> set (walk_components t)"
    and e: "join_components cs = join_components cs'"
  from walk_components_names [OF assms a(1)] have "path_components (join_components cs) = cs"
    by (intro path_components_join) auto
  moreover from walk_components_names [OF assms a(2)] have "path_components (join_components cs') = cs'"
    by (intro path_components_join) auto
  ultimately show "cs = cs'" using e by simp
qed

lemma distinct_gather_source_files:
  assumes "wf_tree t"
  shows "distinct (gather_source_files pats ex t)"
  unfolding gather_source_files_components [OF assms]
  using distinct_walk_components [OF assms] join_components_inj [OF assms]
  by (simp add: distinct_map)

lemma same_entries_components:
  "wf_tree t \<Longrightarrow> wf_tree t' \<Longrightarrow> same_entries t t' \<Longrightarrow>
     set (walk_components t) \<subseteq> set (walk_components t')"
proof (induction t arbitrary: t' rule: walk_components.induct)
  case (1 files dirs)
  obtain files' dirs' where t': "t' = Tree files' dirs'" by (cases t')
  from "1.prems"(1) have dist: "distinct (map fst dirs)" by simp
  from "1.prems"(2) t' have dist': "distinct (map fst dirs')" by simp
  from "1.prems"(3) t' have m: "mset files = mset files'" "mset (map fst dirs) = mset (map fst dirs')"
    and la: "list_all (\<lambda>entry. list_all (\<lambda>entry'.
            fst entry = fst entry' \<longrightarrow> same_entries (snd entry) (snd entry')) dirs') dirs"
    by simp_all
  from m(1) have f: "set files = set files'"
    by (rule mset_eq_setD)
  from m(2) have "set (map fst dirs) = set (map fst dirs')"
    by (rule mset_eq_setD)
  then have n: "fst ` set dirs = fst ` set dirs'"
    by simp
  have s: "same_entries sub sub'"
    if "(d, sub) \<in> set dirs" "(d, sub') \<in> set dirs'" for d sub sub'
  proof -
    from la that(1) have "list_all (\<lambda>entry'. fst (d, sub) = fst entry'
        \<longrightarrow> same_entries (snd (d, sub)) (snd entry')) dirs'"
      unfolding list_all_iff by blast
    with that(2) have "fst (d, sub) = fst (d, sub')
        \<longrightarrow> same_entries (snd (d, sub)) (snd (d, sub'))"
      unfolding list_all_iff by blast
    then show ?thesis by simp
  qed
  show ?case
  proof
    fix cs
    assume "cs \<in> set (walk_components (Tree files dirs))"
    then have "cs \<in> (\<lambda>f. [f]) ` set files
      \<union> (\<Union>p \<in> {p \<in> set dirs. fst p \<noteq> ''.git''}. (#) (fst p) ` set (walk_components (snd p)))"
      unfolding set_walk_components [OF dist] .
    then consider f where "f \<in> set files" "cs = [f]"
      | d sub cs' where "(d, sub) \<in> set dirs" "d \<noteq> ''.git''" "cs' \<in> set (walk_components sub)" "cs = d # cs'"
      by auto
    then have "cs \<in> (\<lambda>f. [f]) ` set files'
      \<union> (\<Union>p \<in> {p \<in> set dirs'. fst p \<noteq> ''.git''}. (#) (fst p) ` set (walk_components (snd p)))"
    proof cases
      case 1
      with f show ?thesis by auto
    next
      case 2
      from 2(1) have "d \<in> fst ` set dirs"
        by (simp add: rev_image_eqI)
      with n have "d \<in> fst ` set dirs'"
        by simp
      then obtain sub' where sub': "(d, sub') \<in> set dirs'"
        by auto
      from wf_tree_sub [OF "1.prems"(1) 2(1)] have w: "wf_tree sub" by simp
      from "1.prems"(2) have "wf_tree (Tree files' dirs')"
        unfolding t' .
      from wf_tree_sub [OF this sub'] have w': "wf_tree sub'"
        by simp
      from 2(1,2) pruned_dirs [OF dist]
      have "(d, sub) \<in> set (if ''.git'' \<in> set (map fst dirs) then remove_dir ''.git'' dirs else dirs)"
        by auto
      from "1.IH" [OF refl this refl w w' s [OF 2(1) sub']] 2(3)
      have "cs' \<in> set (walk_components sub')" by blast
      with 2(4) have "cs \<in> (#) (fst (d, sub')) ` set (walk_components (snd (d, sub')))"
        by simp
      moreover from sub' 2(2) have "(d, sub') \<in> {p \<in> set dirs'. fst p \<noteq> ''.git''}"
        by simp
      ultimately show ?thesis by blast
    qed
    then show "cs \<in> set (walk_components t')"
      unfolding t' set_walk_components [OF dist'] .
  qed
qed

lemma same_entries_sym:
  "same_entries t t' \<Longrightarrow> same_entries t' t"
proof (induction t t' rule: same_entries.induct)
  case (1 files dirs files' dirs')
  have "same_entries (snd p') (snd p)"
    if "p \<in> set dirs" "p' \<in> set dirs'" "fst p' = fst p" for p p'
  proof -
    from "1.prems" that have "same_entries (snd p) (snd p')"
      by (simp add: list_all_iff)
    from "1.IH" [OF that(1,2) that(3) [symmetric] this] show ?thesis .
  qed
  then have "list_all (\<lambda>entry'. list_all (\<lambda>entry.
            fst entry' = fst entry \<longrightarrow> same_entries (snd entry') (snd entry)) dirs) dirs'"
    unfolding list_all_iff by blast
  with "1.prems" show ?case
    by simp
qed

lemma sort_gather_same_entries:
  assumes "wf_tree t" "wf_tree t'" "same_entries t t'"
  shows "sort (gather_source_files pats ex t) = sort (gather_source_files pats ex t')"
proof -
  have "set (walk_components t) = set (walk_components t')"
    using same_entries_components [OF assms] same_entries_components [OF assms(2,1) same_entries_sym [OF assms(3)]]
    by blast
  then have "set (gather_source_files pats ex t) = set (gather_source_files pats ex t')"
    unfolding gather_source_files_components [OF assms(1)] gather_source_files_components [OF assms(2)]
    by simp
  then show ?thesis
    using distinct_gather_source_files [OF assms(1), of pats ex]
      distinct_gather_source_files [OF assms(2), of pats ex]
    by (intro sorted_distinct_set_unique) simp_all
qed

section \<open>File discovery\<close>

lemma gather_components:
  assumes "wf_tree t" "p \<in> set (gather_source_files pats ex t)"
  shows "\<exists>cs \<in> set (walk_components t). p = join_components cs \<and> path_components p = cs"
proof -
  from assms(2) obtain cs where cs: "cs \<in> set (walk_components t)" "p = join_components cs"
    unfolding gather_source_files_components [OF assms(1)] by auto
  from walk_components_names [OF assms(1) cs(1)] have "path_components (join_components cs) = cs"
    by (intro path_components_join) auto
  with cs show ?thesis by blast
qed

lemma git_dir_not_gathered:
  assumes "wf_tree t" "path_isdir t ''.git''"
  shows "''.git'' \<notin> set (gather_source_files pats ex t)"
proof
  assume "''.git'' \<in> set (gather_source_files pats ex t)"
  from gather_components [OF assms(1) this] obtain cs
    where cs: "cs \<in> set (walk_components t)" "path_components ''.git'' = cs" by blast
  have "path_components ''.git'' = [''.git'']" by code_simp
  with cs have one: "[''.git''] \<in> set (walk_components t)" by simp
  obtain files dirs where t: "t = Tree files dirs" by (cases t)
  from assms(1) t have dist: "distinct (map fst dirs)" and disj: "set files \<inter> fst ` set dirs = {}"
    by auto
  from one have "[''.git''] \<in> (\<lambda>f. [f]) ` set files
      \<union> (\<Union>p \<in> {p \<in> set dirs. fst p \<noteq> ''.git''}. (#) (fst p) ` set (walk_components (snd p)))"
    unfolding t set_walk_components [OF dist] .
  then consider "''.git'' \<in> set files"
    | d sub cs' where "(d, sub) \<in> set dirs" "d \<noteq> ''.git''" "[''.git''] = d # cs'"
    by auto
  then show False
  proof cases
    case 1
    moreover from assms(2) t have "''.git'' \<in> fst ` set dirs"
      by (simp add: path_isdir_def)
    ultimately show False using disj by blast
  next
    case 2
    then show False by simp
  qed
qed

lemma same_entries_root_names:
  assumes "same_entries t t'"
  shows "path_exists t name = path_exists t' name \<and> path_isdir t name = path_isdir t' name"
proof -
  obtain files dirs where t: "t = Tree files dirs" by (cases t)
  obtain files' dirs' where t': "t' = Tree files' dirs'" by (cases t')
  from assms t t' have m: "mset files = mset files'" "mset (map fst dirs) = mset (map fst dirs')"
    by simp_all
  from m(1) have "set files = set files'"
    by (rule mset_eq_setD)
  moreover from m(2) have "set (map fst dirs) = set (map fst dirs')"
    by (rule mset_eq_setD)
  ultimately show ?thesis
    by (simp add: path_exists_def path_isdir_def t t')
qed

lemma path_isdir_open_for_writing:
  "path_isdir (open_for_writing new t) name = path_isdir t name"
  by (simp add: path_isdir_def open_for_writing_def)

lemma main_same_entries:
  assumes wf: "wf_tree (open_for_writing ''repoed.md'' (cwd e))"
      "wf_tree (open_for_writing ''repoed.md'' (cwd e'))"
    and same: "same_entries (open_for_writing ''repoed.md'' (cwd e))
                 (open_for_writing ''repoed.md'' (cwd e'))"
    and rest: "gitignore_lines e' = gitignore_lines e" "git_log e' = git_log e"
      "read_text e' = read_text e"
  shows "main e' = main e"
proof -
  have ex: "path_exists (cwd e') name = path_exists (cwd e) name" if "name \<noteq> ''repoed.md''" for name
    using same_entries_root_names [OF same, of name]
      path_exists_open_for_writing [OF that, of "cwd e"]
      path_exists_open_for_writing [OF that, of "cwd e'"]
    by simp
  have dir: "path_isdir (cwd e') name = path_isdir (cwd e) name" for name
    using same_entries_root_names [OF same, of name]
    by (simp add: path_isdir_open_for_writing)
  have pats: "read_gitignore e' = read_gitignore e"
    using ex [of "''.gitignore''"] rest(1) by (simp add: read_gitignore_def)
  have commits: "get_git_commits e' = get_git_commits e"
    using rest(2) by (simp add: get_git_commits_def)
  have readme: "main_readme e' = main_readme e"
    using ex [of "''README.md''"] pats rest(3) by (simp add: main_readme_def)
  have files: "main_source_files e' = main_source_files e"
    unfolding main_source_files_def pats
    using sort_gather_same_entries [OF wf same] by simp
  show ?thesis
  proof (cases "path_isdir (cwd e) ''.git'' \<and> path_exists (cwd e) ''.gitignore''")
    case True
    then have p: "path_isdir (cwd e) ''.git''" "path_exists (cwd e) ''.gitignore''"
      by simp_all
    with dir [of "''.git''"] ex [of "''.gitignore''"]
    have p': "path_isdir (cwd e') ''.git''" "path_exists (cwd e') ''.gitignore''"
      by simp_all
    from main_document [OF p] main_document [OF p'] show ?thesis
      by (simp add: commits readme files rest(3))
  next
    case False
    with dir [of "''.git''"] ex [of "''.gitignore''"] show ?thesis
      by (auto simp: main_def)
  qed
qed

text \<open>
  Claim C5. A run that passes the two checks of \<open>main\<close> renders one section for
  every path of the list that discovery gathers, and renders them in the lexicographic
  order of strings: the list behind the sections of the document is sorted and has
  the gathered paths, each as often as it was gathered. Discovery is a function of
  the directory and the ignore lines, so two runs that find the same of both render the
  same list. The order in which the operating system lists the entries of a directory
  does not matter either: two runs on the same well-formed directory, listed in any
  order at any level, with the same ignore lines, revision messages and file contents
  write the same document, byte for byte.
\<close>

theorem discovery_sorted_and_deterministic:
  "(path_isdir (cwd e) ''.git'' \<and> path_exists (cwd e) ''.gitignore'' \<longrightarrow>
      main e = Inr (commits_section (get_git_commits e) @ readme_section (main_readme e)
                     @ concat (map (\<lambda>file. file_section file
                                              (read_file_content (read_text e) file))
                         (main_source_files e))))
   \<and> sorted (main_source_files e)
   \<and> mset (main_source_files e)
       = mset (gather_source_files (read_gitignore e)
                 {''README.md'', ''.gitignore'', ''repoed.md''}
                 (open_for_writing ''repoed.md'' (cwd e)))
   \<and> (cwd e' = cwd e \<and> gitignore_lines e' = gitignore_lines e \<longrightarrow>
        main_source_files e' = main_source_files e)
   \<and> (wf_tree (open_for_writing ''repoed.md'' (cwd e))
        \<and> wf_tree (open_for_writing ''repoed.md'' (cwd e'))
        \<and> same_entries (open_for_writing ''repoed.md'' (cwd e))
             (open_for_writing ''repoed.md'' (cwd e'))
        \<and> gitignore_lines e' = gitignore_lines e \<and> git_log e' = git_log e
        \<and> read_text e' = read_text e \<longrightarrow>
        main e' = main e)
   \<and> sorted (sort (gather_source_files pats ex t))
   \<and> mset (sort (gather_source_files pats ex t)) = mset (gather_source_files pats ex t)
   \<and> (wf_tree t \<and> wf_tree t' \<and> same_entries t t' \<longrightarrow>
        sort (gather_source_files pats ex t) = sort (gather_source_files pats ex t'))"
proof -
  have doc: "main e = Inr (commits_section (get_git_commits e) @ readme_section (main_readme e)
                     @ concat (map (\<lambda>file. file_section file
                                              (read_file_content (read_text e) file))
                         (main_source_files e)))"
    if checks: "path_isdir (cwd e) ''.git''" "path_exists (cwd e) ''.gitignore''"
  proof -
    have ex: "path_exists (open_for_writing ''repoed.md'' (cwd e)) ''README.md''
              = path_exists (cwd e) ''README.md''"
      by (rule path_exists_open_for_writing) simp
    have commits: "foldl (\<lambda>out commit. out @ ''- '' @ commit @ nl) out cs
        = out @ concat (map (\<lambda>commit. ''- '' @ commit @ nl) cs)" for out cs
      by (induction cs arbitrary: out) simp_all
    have files: "foldl (\<lambda>out file.
                            out @ (''### '' @ file @ nl) @ (nl @ ''```'' @ nl)
                              @ (read_file_content (read_text e) file @ nl)
                              @ (''```'' @ nl) @ (''---'' @ nl @ nl)) out xs
        = out @ concat (map (\<lambda>file. file_section file
                                          (read_file_content (read_text e) file)) xs)"
      for out xs
      by (induction xs arbitrary: out) (simp_all add: file_section_def)
    show ?thesis
      unfolding main_def Let_def commits files ex
      using checks
      by (simp add: commits_section_def readme_section_def main_readme_def
          main_source_files_def)
  qed
  have srt: "sorted (main_source_files e)"
    by (simp add: main_source_files_def)
  have ms: "mset (main_source_files e)
       = mset (gather_source_files (read_gitignore e)
                 {''README.md'', ''.gitignore'', ''repoed.md''}
                 (open_for_writing ''repoed.md'' (cwd e)))"
    by (simp add: main_source_files_def)
  have fn: "main_source_files e' = main_source_files e"
    if "cwd e' = cwd e" "gitignore_lines e' = gitignore_lines e"
    using that by (simp add: main_source_files_def read_gitignore_def)
  have runs: "main e' = main e"
    if "wf_tree (open_for_writing ''repoed.md'' (cwd e))"
      "wf_tree (open_for_writing ''repoed.md'' (cwd e'))"
      "same_entries (open_for_writing ''repoed.md'' (cwd e))
             (open_for_writing ''repoed.md'' (cwd e'))"
      "gitignore_lines e' = gitignore_lines e" "git_log e' = git_log e"
      "read_text e' = read_text e"
    using that by (rule main_same_entries)
  have order: "sort (gather_source_files pats ex t) = sort (gather_source_files pats ex t')"
    if "wf_tree t" "wf_tree t'" "same_entries t t'"
    using that by (rule sort_gather_same_entries)
  from doc srt ms fn runs order show ?thesis
    by simp
qed

theorem discovery_sorted_and_deterministic_witness:
  "path_isdir (cwd example_env) ''.git'' \<and> path_exists (cwd example_env) ''.gitignore''
   \<and> wf_tree (open_for_writing ''repoed.md'' (cwd example_env))
   \<and> wf_tree (open_for_writing ''repoed.md'' (cwd example_env_reordered))
   \<and> same_entries (open_for_writing ''repoed.md'' (cwd example_env))
        (open_for_writing ''repoed.md'' (cwd example_env_reordered))
   \<and> gather_source_files (read_gitignore example_env)
        {''README.md'', ''.gitignore'', ''repoed.md''}
        (open_for_writing ''repoed.md'' (cwd example_env))
       = [''b.txt'', ''src/a.py'', ''src/README.md'']
   \<and> gather_source_files (read_gitignore example_env_reordered)
        {''README.md'', ''.gitignore'', ''repoed.md''}
        (open_for_writing ''repoed.md'' (cwd example_env_reordered))
       = [''b.txt'', ''src/README.md'', ''src/a.py'']
   \<and> main_source_files example_env = [''b.txt'', ''src/README.md'', ''src/a.py'']
   \<and> main example_env
       = Inr (commits_section (get_git_commits example_env)
              @ readme_section (main_readme example_env)
              @ concat (map (\<lambda>file. file_section file
                                       (read_file_content (read_text example_env) file))
                  [''b.txt'', ''src/README.md'', ''src/a.py'']))
   \<and> main example_env_reordered = main example_env"
proof -
  have p: "path_isdir (cwd example_env) ''.git''" "path_exists (cwd example_env) ''.gitignore''"
    by code_simp+
  have h: "wf_tree (open_for_writing ''repoed.md'' (cwd example_env))"
    "wf_tree (open_for_writing ''repoed.md'' (cwd example_env_reordered))"
    "same_entries (open_for_writing ''repoed.md'' (cwd example_env))
        (open_for_writing ''repoed.md'' (cwd example_env_reordered))"
    by code_simp+
  have r: "gitignore_lines example_env_reordered = gitignore_lines example_env"
    "git_log example_env_reordered = git_log example_env"
    "read_text example_env_reordered = read_text example_env"
    by (simp_all add: example_env_reordered_def)
  have a: "gather_source_files (read_gitignore example_env)
        {''README.md'', ''.gitignore'', ''repoed.md''}
        (open_for_writing ''repoed.md'' (cwd example_env))
       = [''b.txt'', ''src/a.py'', ''src/README.md'']"
    by code_simp
  have b: "gather_source_files (read_gitignore example_env_reordered)
        {''README.md'', ''.gitignore'', ''repoed.md''}
        (open_for_writing ''repoed.md'' (cwd example_env_reordered))
       = [''b.txt'', ''src/README.md'', ''src/a.py'']"
    by code_simp
  have l: "main_source_files example_env = [''b.txt'', ''src/README.md'', ''src/a.py'']"
    by code_simp
  have m: "main example_env
       = Inr (commits_section (get_git_commits example_env)
              @ readme_section (main_readme example_env)
              @ concat (map (\<lambda>file. file_section file
                                       (read_file_content (read_text example_env) file))
                  [''b.txt'', ''src/README.md'', ''src/a.py'']))"
    by code_simp
  note t = discovery_sorted_and_deterministic
    [of example_env example_env_reordered "[]" "{}" example_tree example_tree_reordered]
  from t p have 1: "main example_env
       = Inr (commits_section (get_git_commits example_env)
              @ readme_section (main_readme example_env)
              @ concat (map (\<lambda>file. file_section file
                                       (read_file_content (read_text example_env) file))
                  (main_source_files example_env)))"
    by blast
  from t h r have 2: "main example_env_reordered = main example_env"
    by blast
  from p h a b l m 1 2 show ?thesis
    by simp
qed

text \<open>
  Claim C7. A path of the exclusion set is never in the discovered list, whatever the
  ignore patterns are: the discovered list is the list of walked files without the
  members of the exclusion set (compared as strings) and without the ignored paths. The
  exclusion set of \<open>main\<close> holds \<open>README.md\<close> and \<open>.gitignore\<close>, so neither gets a
  section among the other files.
\<close>

theorem excluded_never_gathered:
  "(x \<in> exclude_files \<longrightarrow> x \<notin> set (gather_source_files pats exclude_files t))
   \<and> gather_source_files pats exclude_files t
       = filter (\<lambda>x. x \<notin> exclude_files \<and> \<not> is_ignored x pats) (gather_source_files [] {} t)
   \<and> ''README.md'' \<notin> set (main_source_files e)
   \<and> ''.gitignore'' \<notin> set (main_source_files e)
   \<and> (path_isdir (cwd e) ''.git'' \<and> path_exists (cwd e) ''.gitignore'' \<longrightarrow>
        main e = Inr (commits_section (get_git_commits e) @ readme_section (main_readme e)
                       @ main_file_sections e))"
proof -
  have f: "gather_source_files pats exclude_files t
       = filter (\<lambda>x. x \<notin> exclude_files \<and> \<not> is_ignored x pats) (gather_source_files [] {} t)"
    by (rule gather_source_files_filter)
  then have "x \<notin> set (gather_source_files pats exclude_files t)" if "x \<in> exclude_files"
    using that by simp
  moreover have "''README.md'' \<notin> set (main_source_files e)"
    "''.gitignore'' \<notin> set (main_source_files e)"
    by (simp_all add: set_main_source_files)
  moreover have "main e = Inr (commits_section (get_git_commits e) @ readme_section (main_readme e)
                       @ main_file_sections e)"
    if "path_isdir (cwd e) ''.git''" "path_exists (cwd e) ''.gitignore''"
    unfolding main_file_sections_def using that by (rule main_document)
  ultimately show ?thesis using f by blast
qed

theorem excluded_never_gathered_witness:
  "''README.md'' \<in> set (tree_files example_tree)
   \<and> \<not> is_ignored ''README.md'' [''!README.md'']
   \<and> ''README.md'' \<in> set (gather_source_files [''!README.md''] {} example_tree)
   \<and> ''README.md'' \<notin> set (gather_source_files [''!README.md''] {''README.md''} example_tree)
   \<and> path_isdir (cwd example_env) ''.git'' \<and> path_exists (cwd example_env) ''.gitignore''
   \<and> main example_env = Inr (commits_section (get_git_commits example_env)
        @ readme_section (main_readme example_env) @ main_file_sections example_env)"
proof -
  have a: "''README.md'' \<in> set (tree_files example_tree)"
    "\<not> is_ignored ''README.md'' [''!README.md'']"
    "''README.md'' \<in> set (gather_source_files [''!README.md''] {} example_tree)"
    by code_simp+
  have h: "path_isdir (cwd example_env) ''.git''" "path_exists (cwd example_env) ''.gitignore''"
    by code_simp+
  have m: "''README.md'' \<in> {''README.md''}" by simp
  from excluded_never_gathered
    [of "''README.md''" "{''README.md''}" "[''!README.md'']" example_tree example_env] m h
  have "''README.md'' \<notin> set (gather_source_files [''!README.md''] {''README.md''} example_tree)
     \<and> main example_env = Inr (commits_section (get_git_commits example_env)
        @ readme_section (main_readme example_env) @ main_file_sections example_env)"
    by blast
  with a h show ?thesis by blast
qed

text \<open>
  Claim C9. In a well-formed directory, no discovered path has a segment \<open>.git\<close>
  above its last one, so none lies under a directory of that name at any depth; and
  where \<open>.git\<close> is a directory of the current directory, as \<open>main\<close> requires, the
  path \<open>.git\<close> itself is not discovered. The same holds for the list \<open>main\<close> renders.
\<close>

theorem git_directory_never_walked:
  "(wf_tree t \<and> p \<in> set (gather_source_files pats ex t) \<longrightarrow>
      ''.git'' \<notin> set (butlast (path_components p))
      \<and> (path_isdir t ''.git'' \<longrightarrow> p \<noteq> ''.git''))
   \<and> (wf_tree (open_for_writing ''repoed.md'' (cwd e)) \<and> path_isdir (cwd e) ''.git''
        \<and> q \<in> set (main_source_files e) \<longrightarrow>
      ''.git'' \<notin> set (butlast (path_components q)) \<and> q \<noteq> ''.git'')"
proof -
  have g: "''.git'' \<notin> set (butlast (path_components p)) \<and> (path_isdir t ''.git'' \<longrightarrow> p \<noteq> ''.git'')"
    if "wf_tree t" "p \<in> set (gather_source_files pats ex t)" for t p pats ex
  proof -
    from gather_components [OF that] obtain cs
      where cs: "cs \<in> set (walk_components t)" "path_components p = cs" by blast
    from walk_components_no_git [OF that(1) cs(1)] cs(2)
    have "''.git'' \<notin> set (butlast (path_components p))" by simp
    moreover from git_dir_not_gathered [OF that(1)] that(2)
    have "path_isdir t ''.git'' \<longrightarrow> p \<noteq> ''.git''" by blast
    ultimately show ?thesis by blast
  qed
  have "''.git'' \<notin> set (butlast (path_components q)) \<and> q \<noteq> ''.git''"
    if "wf_tree (open_for_writing ''repoed.md'' (cwd e))" "path_isdir (cwd e) ''.git''"
      "q \<in> set (main_source_files e)"
  proof -
    from that(3) have "q \<in> set (gather_source_files (read_gitignore e)
        {''README.md'', ''.gitignore'', ''repoed.md''} (open_for_writing ''repoed.md'' (cwd e)))"
      by (simp add: main_source_files_def)
    moreover from that(2) have "path_isdir (open_for_writing ''repoed.md'' (cwd e)) ''.git''"
      by (simp add: path_isdir_def open_for_writing_def)
    ultimately show ?thesis using g [OF that(1)] by blast
  qed
  with g show ?thesis by blast
qed

theorem git_directory_never_walked_witness:
  "wf_tree example_tree
   \<and> path_isdir example_tree ''.git''
   \<and> ''src/a.py'' \<in> set (gather_source_files [] {} example_tree)
   \<and> ''.git'' \<notin> set (butlast (path_components ''src/a.py''))
   \<and> ''.git/HEAD'' \<notin> set (gather_source_files [] {} example_tree)"
proof -
  have h: "wf_tree example_tree" "path_isdir example_tree ''.git''"
    "''src/a.py'' \<in> set (gather_source_files [] {} example_tree)"
    by code_simp+
  have c: "''.git'' \<in> set (butlast (path_components ''.git/HEAD''))"
    by code_simp
  from git_directory_never_walked [of example_tree "''src/a.py''" "[]" "{}" example_env "[]"] h
  have 1: "''.git'' \<notin> set (butlast (path_components ''src/a.py''))"
    by blast
  from git_directory_never_walked [of example_tree "''.git/HEAD''" "[]" "{}" example_env "[]"] h c
  have 2: "''.git/HEAD'' \<notin> set (gather_source_files [] {} example_tree)"
    by blast
  from h 1 2 show ?thesis by blast
qed

section \<open>The document\<close>

lemma root_file_gathered:
  assumes "name \<in> set (tree_files t)" "\<not> startswith name ''/''"
    "name \<notin> ex" "\<not> is_ignored name pats"
  shows "name \<in> set (gather_source_files pats ex t)"
proof -
  obtain files dirs where t: "t = Tree files dirs" by (cases t)
  have "path_join ''.'' name = ''./'' @ name"
    using assms(2) by (simp add: path_join_def endswith_def suffix_def)
  then have "visit_file pats ex ''.'' name = [name]"
    using assms(3,4) by (simp add: visit_file_def startswith_def Let_def)
  moreover from assms(1) t have "name \<in> set files" by simp
  ultimately have "name \<in> set (concat (map (visit_file pats ex ''.'') files))"
    by force
  then show ?thesis
    by (simp add: gather_source_files_def t Let_def)
qed

lemma main_source_files_read_text:
  "main_source_files (e\<lparr>read_text := r\<rparr>) = main_source_files e"
  by (simp add: main_source_files_def read_gitignore_def)

text \<open>
  Claim C6. A run that passes the two checks of \<open>main\<close> writes the commits section,
  the README section and the file sections, in this order. With no revision message the
  commits section is the header, the one bullet \<open>- Not committed yet\<close> and one blank
  line. With \<open>README.md\<close> absent or ignored the README section is the header, a blank
  line, the one bullet \<open>- Does not exist\<close>, the delimiter \<open>---\<close> and a blank line.
  The README section with a text and every file section end with the closing fence, the
  delimiter and a blank line, written once.
\<close>

theorem empty_commits_and_missing_readme:
  "(path_isdir (cwd e) ''.git'' \<and> path_exists (cwd e) ''.gitignore'' \<longrightarrow>
      main e = Inr (commits_section (get_git_commits e) @ readme_section (main_readme e)
                     @ main_file_sections e))
   \<and> (get_git_commits e = [] \<longleftrightarrow> git_log e = None \<or> git_log e = Some [])
   \<and> commits_section [] = ''### Last Commits'' @ nl @ ''- Not committed yet'' @ nl @ nl
   \<and> (main_readme e = None \<longleftrightarrow>
        \<not> path_exists (cwd e) ''README.md'' \<or> is_ignored ''README.md'' (read_gitignore e))
   \<and> readme_section None
       = ''### README.md'' @ nl @ nl @ ''- Does not exist'' @ nl @ ''---'' @ nl @ nl
   \<and> readme_section (Some text)
       = ''### README.md'' @ nl @ nl @ ''```'' @ nl @ text @ nl @ ''```'' @ nl
           @ ''---'' @ nl @ nl
   \<and> main_file_sections e
       = concat (map (\<lambda>file. ''### '' @ file @ nl @ nl @ ''```'' @ nl
                               @ read_file_content (read_text e) file @ nl @ ''```'' @ nl
                               @ ''---'' @ nl @ nl)
           (main_source_files e))
   \<and> (path_isdir (cwd e) ''.git'' \<and> path_exists (cwd e) ''.gitignore''
        \<and> get_git_commits e = []
        \<and> (\<not> path_exists (cwd e) ''README.md'' \<or> is_ignored ''README.md'' (read_gitignore e))
      \<longrightarrow> main e = Inr (''### Last Commits'' @ nl @ ''- Not committed yet'' @ nl @ nl
                          @ ''### README.md'' @ nl @ nl @ ''- Does not exist'' @ nl
                          @ ''---'' @ nl @ nl
                          @ main_file_sections e))"
proof -
  have doc: "main e = Inr (commits_section (get_git_commits e) @ readme_section (main_readme e)
                     @ main_file_sections e)"
    if "path_isdir (cwd e) ''.git''" "path_exists (cwd e) ''.gitignore''"
    unfolding main_file_sections_def using that by (rule main_document)
  have commits: "get_git_commits e = [] \<longleftrightarrow> git_log e = None \<or> git_log e = Some []"
    by (simp add: get_git_commits_def split: option.split)
  have c0: "commits_section [] = ''### Last Commits'' @ nl @ ''- Not committed yet'' @ nl @ nl"
    by (simp add: commits_section_def)
  have readme: "main_readme e = None \<longleftrightarrow>
        \<not> path_exists (cwd e) ''README.md'' \<or> is_ignored ''README.md'' (read_gitignore e)"
    by (simp add: main_readme_def)
  have r0: "readme_section None
       = ''### README.md'' @ nl @ nl @ ''- Does not exist'' @ nl @ ''---'' @ nl @ nl"
    by (simp add: readme_section_def)
  have r1: "readme_section (Some text)
       = ''### README.md'' @ nl @ nl @ ''```'' @ nl @ text @ nl @ ''```'' @ nl
           @ ''---'' @ nl @ nl"
    by (simp add: readme_section_def)
  have files: "main_file_sections e
       = concat (map (\<lambda>file. ''### '' @ file @ nl @ nl @ ''```'' @ nl
                               @ read_file_content (read_text e) file @ nl @ ''```'' @ nl
                               @ ''---'' @ nl @ nl)
           (main_source_files e))"
    by (simp add: main_file_sections_def file_section_def)
  have both: "main e = Inr (''### Last Commits'' @ nl @ ''- Not committed yet'' @ nl @ nl
                          @ ''### README.md'' @ nl @ nl @ ''- Does not exist'' @ nl
                          @ ''---'' @ nl @ nl
                          @ main_file_sections e)"
    if "path_isdir (cwd e) ''.git''" "path_exists (cwd e) ''.gitignore''"
      "get_git_commits e = []"
      "\<not> path_exists (cwd e) ''README.md'' \<or> is_ignored ''README.md'' (read_gitignore e)"
  proof -
    from that(4) readme have "main_readme e = None" by blast
    with doc [OF that(1,2)] that(3) show ?thesis
      by (simp add: c0 r0)
  qed
  from doc commits c0 readme r0 r1 files both show ?thesis
    by blast
qed

theorem empty_commits_and_missing_readme_witness:
  "path_isdir (cwd example_env_bare) ''.git'' \<and> path_exists (cwd example_env_bare) ''.gitignore''
   \<and> get_git_commits example_env_bare = []
   \<and> \<not> path_exists (cwd example_env_bare) ''README.md''
   \<and> main example_env_bare
       = Inr (''### Last Commits'' @ nl @ ''- Not committed yet'' @ nl @ nl
              @ ''### README.md'' @ nl @ nl @ ''- Does not exist'' @ nl @ ''---'' @ nl @ nl
              @ ''### a.txt'' @ nl @ nl @ ''```'' @ nl @ ''X'' @ nl @ ''```'' @ nl
              @ ''---'' @ nl @ nl)"
proof -
  have h: "path_isdir (cwd example_env_bare) ''.git''"
    "path_exists (cwd example_env_bare) ''.gitignore''"
    "get_git_commits example_env_bare = []"
    "\<not> path_exists (cwd example_env_bare) ''README.md''"
    by code_simp+
  have f: "main_file_sections example_env_bare
      = ''### a.txt'' @ nl @ nl @ ''```'' @ nl @ ''X'' @ nl @ ''```'' @ nl @ ''---'' @ nl @ nl"
    by code_simp
  from empty_commits_and_missing_readme [of example_env_bare] h
  have "main example_env_bare
       = Inr (''### Last Commits'' @ nl @ ''- Not committed yet'' @ nl @ nl
              @ ''### README.md'' @ nl @ nl @ ''- Does not exist'' @ nl @ ''---'' @ nl @ nl
              @ main_file_sections example_env_bare)"
    by blast
  with h f show ?thesis by simp
qed

text \<open>
  Claim C8. Reading a file gives a text in every case: when the read raises, the text
  is \<open>Error reading file: \<close> followed by the message of the exception. Whatever the
  reader does, a run that passes the two checks of \<open>main\<close> returns the whole document,
  with one section for every entry of the discovered list, which does not depend on the
  reader; the section of a file that cannot be read holds the error text between the
  fences. In a well-formed directory no path is discovered twice, so the file has
  exactly one section.
\<close>

theorem unreadable_file_gets_section:
  "(read_text e file = Inl msg \<longrightarrow>
      read_file_content (read_text e) file = ''Error reading file: '' @ msg
      \<and> file_section file (read_file_content (read_text e) file)
          = ''### '' @ file @ nl @ nl @ ''```'' @ nl @ ''Error reading file: '' @ msg @ nl
              @ ''```'' @ nl @ ''---'' @ nl @ nl)
   \<and> (path_isdir (cwd e) ''.git'' \<and> path_exists (cwd e) ''.gitignore'' \<longrightarrow>
        main (e\<lparr>read_text := r\<rparr>)
          = Inr (commits_section (get_git_commits e)
                 @ readme_section (main_readme (e\<lparr>read_text := r\<rparr>))
                 @ concat (map (\<lambda>file. file_section file (read_file_content r file))
                     (main_source_files e))))
   \<and> (wf_tree (open_for_writing ''repoed.md'' (cwd e)) \<longrightarrow> distinct (main_source_files e))"
proof -
  have "read_file_content (read_text e) file = ''Error reading file: '' @ msg
      \<and> file_section file (read_file_content (read_text e) file)
          = ''### '' @ file @ nl @ nl @ ''```'' @ nl @ ''Error reading file: '' @ msg @ nl
              @ ''```'' @ nl @ ''---'' @ nl @ nl"
    if "read_text e file = Inl msg"
    using that by (simp add: read_file_content_def file_section_def)
  moreover have "main (e\<lparr>read_text := r\<rparr>)
          = Inr (commits_section (get_git_commits e)
                 @ readme_section (main_readme (e\<lparr>read_text := r\<rparr>))
                 @ concat (map (\<lambda>file. file_section file (read_file_content r file))
                     (main_source_files e)))"
    if "path_isdir (cwd e) ''.git''" "path_exists (cwd e) ''.gitignore''"
  proof -
    from that have "path_isdir (cwd (e\<lparr>read_text := r\<rparr>)) ''.git''"
      "path_exists (cwd (e\<lparr>read_text := r\<rparr>)) ''.gitignore''"
      by simp_all
    from main_document [OF this] show ?thesis
      by (simp add: main_source_files_read_text get_git_commits_def)
  qed
  moreover have "distinct (main_source_files e)"
    if "wf_tree (open_for_writing ''repoed.md'' (cwd e))"
    using distinct_gather_source_files [OF that] by (simp add: main_source_files_def)
  ultimately show ?thesis by blast
qed

theorem unreadable_file_gets_section_witness:
  "read_text example_env ''b.txt'' = Inl ''[Errno 13] Permission denied''
   \<and> path_isdir (cwd example_env) ''.git'' \<and> path_exists (cwd example_env) ''.gitignore''
   \<and> wf_tree (open_for_writing ''repoed.md'' (cwd example_env))
   \<and> main_source_files example_env = [''b.txt'', ''src/README.md'', ''src/a.py'']
   \<and> distinct (main_source_files example_env)
   \<and> file_section ''b.txt'' (read_file_content (read_text example_env) ''b.txt'')
       = ''### b.txt'' @ nl @ nl @ ''```'' @ nl
           @ ''Error reading file: [Errno 13] Permission denied'' @ nl
           @ ''```'' @ nl @ ''---'' @ nl @ nl
   \<and> main (example_env\<lparr>read_text := read_text example_env\<rparr>)
       = Inr (commits_section (get_git_commits example_env)
              @ readme_section (main_readme (example_env\<lparr>read_text := read_text example_env\<rparr>))
              @ concat (map (\<lambda>file. file_section file
                                       (read_file_content (read_text example_env) file))
                  (main_source_files example_env)))"
proof -
  have h: "read_text example_env ''b.txt'' = Inl ''[Errno 13] Permission denied''"
    "path_isdir (cwd example_env) ''.git''" "path_exists (cwd example_env) ''.gitignore''"
    "wf_tree (open_for_writing ''repoed.md'' (cwd example_env))"
    by code_simp+
  have l: "main_source_files example_env = [''b.txt'', ''src/README.md'', ''src/a.py'']"
    by code_simp
  note t = unreadable_file_gets_section
    [of example_env "''b.txt''" "''[Errno 13] Permission denied''" "read_text example_env"]
  from t h have 1: "distinct (main_source_files example_env)"
    by blast
  from t h have 2: "file_section ''b.txt'' (read_file_content (read_text example_env) ''b.txt'')
       = ''### '' @ ''b.txt'' @ nl @ nl @ ''```'' @ nl
           @ ''Error reading file: '' @ ''[Errno 13] Permission denied'' @ nl
           @ ''```'' @ nl @ ''---'' @ nl @ nl"
    by blast
  from t h have 3: "main (example_env\<lparr>read_text := read_text example_env\<rparr>)
       = Inr (commits_section (get_git_commits example_env)
              @ readme_section (main_readme (example_env\<lparr>read_text := read_text example_env\<rparr>))
              @ concat (map (\<lambda>file. file_section file
                                       (read_file_content (read_text example_env) file))
                  (main_source_files example_env)))"
    by blast
  from h l 1 2 3 show ?thesis by simp
qed

text \<open>
  Claim C10. When \<open>main\<close> walks the directory, the output file \<open>repoed.md\<close> is among
  the files of the current directory, since it has been opened for writing before. The
  exclusion set of \<open>main\<close> holds its name, so the rendered list never has it and the
  document has no section for it. Without the name in the exclusion set the walk would
  report the file unless a pattern ignores it.
\<close>

theorem output_file_never_gathered:
  "''repoed.md'' \<in> set (tree_files (open_for_writing ''repoed.md'' (cwd e)))
   \<and> ''repoed.md'' \<notin> set (main_source_files e)
   \<and> main_source_files e
       = sort (gather_source_files (read_gitignore e)
                 {''README.md'', ''.gitignore'', ''repoed.md''}
                 (open_for_writing ''repoed.md'' (cwd e)))
   \<and> (\<not> is_ignored ''repoed.md'' pats \<longrightarrow>
        ''repoed.md'' \<in> set (gather_source_files pats {''README.md'', ''.gitignore''}
                               (open_for_writing ''repoed.md'' t)))
   \<and> (path_isdir (cwd e) ''.git'' \<and> path_exists (cwd e) ''.gitignore'' \<longrightarrow>
        main e = Inr (commits_section (get_git_commits e) @ readme_section (main_readme e)
                       @ main_file_sections e))"
proof -
  have there: "''repoed.md'' \<in> set (tree_files (open_for_writing ''repoed.md'' t))" for t
    by (simp add: open_for_writing_def)
  have "''repoed.md'' \<notin> set (main_source_files e)"
    by (simp add: set_main_source_files)
  moreover have "''repoed.md'' \<in> set (gather_source_files pats {''README.md'', ''.gitignore''}
                               (open_for_writing ''repoed.md'' t))"
    if "\<not> is_ignored ''repoed.md'' pats"
    using there [of t] that by (intro root_file_gathered) (simp_all add: startswith_def)
  moreover have "main e = Inr (commits_section (get_git_commits e) @ readme_section (main_readme e)
                       @ main_file_sections e)"
    if "path_isdir (cwd e) ''.git''" "path_exists (cwd e) ''.gitignore''"
    unfolding main_file_sections_def using that by (rule main_document)
  ultimately show ?thesis
    using there [of "cwd e"] by (simp add: main_source_files_def)
qed

theorem output_file_never_gathered_witness:
  "''repoed.md'' \<notin> set (tree_files (cwd example_env))
   \<and> \<not> is_ignored ''repoed.md'' (read_gitignore example_env)
   \<and> ''repoed.md'' \<in> set (gather_source_files (read_gitignore example_env)
        {''README.md'', ''.gitignore''} (open_for_writing ''repoed.md'' (cwd example_env)))
   \<and> ''repoed.md'' \<notin> set (main_source_files example_env)
   \<and> path_isdir (cwd example_env) ''.git'' \<and> path_exists (cwd example_env) ''.gitignore''
   \<and> main example_env = Inr (commits_section (get_git_commits example_env)
        @ readme_section (main_readme example_env) @ main_file_sections example_env)"
proof -
  have h: "''repoed.md'' \<notin> set (tree_files (cwd example_env))"
    "\<not> is_ignored ''repoed.md'' (read_gitignore example_env)"
    "path_isdir (cwd example_env) ''.git''" "path_exists (cwd example_env) ''.gitignore''"
    by code_simp+
  from output_file_never_gathered [of example_env "read_gitignore example_env" "cwd example_env"] h
  show ?thesis by blast
qed

end
